theory Spec2Isabelle
  imports Main "HOL-Library.AList" "HOL-Library.Multiset"
begin

section \<open>Data model of the game engine (server/game/game.go)\<close>

text \<open>
  The Go structs become records. Go's \<open>int\<close> and \<open>int64\<close> are 64-bit signed integers;
  they are modelled as \<open>int\<close>, with the two's-complement wrap-around of every addition and
  subtraction of the source written out by \<open>wrap64\<close>. The fields \<open>X\<close> and \<open>Y\<close> of a
  sweet and of a command are called \<open>SX\<close>, \<open>SY\<close> and \<open>CX\<close>, \<open>CY\<close>, the field \<open>ID\<close> of a
  sweet \<open>SID\<close>, since record fields share one name space.
\<close>

definition wrap64 :: "int \<Rightarrow> int" where
  "wrap64 v = (v + 2 ^ 63) mod 2 ^ 64 - 2 ^ 63"

record Player =
  ID :: string
  Name :: string
  X :: int
  Y :: int
  Score :: int

record Sweet =
  SID :: string
  SX :: int
  SY :: int

record Command =
  PlayerID :: string
  Type :: string
  Dir :: string
  CX :: int
  CY :: int

text \<open>
  The messages that the engine marshals to JSON and offers to its two broadcast channels:
  the per-tick snapshot, the \<open>collected\<close> event (player, sweet, tick) and the
  \<open>game_over\<close> event (id, name and score of every player).
\<close>

record StateMessage =
  Tick :: int
  Players :: "Player list"
  Sweets :: "Sweet list"

datatype Event =
    Collected string string int
  | GameOver "(string \<times> string \<times> int) list"

text \<open>
  A Go map is an association list with pairwise distinct keys: \<open>map_of\<close> reads it,
  \<open>AList.update\<close> writes a key and \<open>AList.delete\<close> removes one. Go leaves the order in which
  \<open>range\<close> visits a map unspecified; the model visits the list from left to right, and
  every theorem below holds for every list, so for every order. A buffered channel is the list
  of the messages it holds. The random source is the sequence of its future raw draws. Every
  operation of the engine holds the mutex of the game for its whole body, so an operation is
  a function from the state before to the state after.
\<close>

record Game =
  W :: int
  H :: int
  players :: "(string \<times> Player) list"
  sweets :: "(string \<times> Sweet) list"
  commands :: "Command list"
  StateBroadcast :: "StateMessage list"
  EventBroadcast :: "Event list"
  tick :: int
  rand :: "nat \<Rightarrow> nat"

datatype error = IntnPanic

text \<open>
  A non-blocking send (\<open>select\<close> with a \<open>default\<close> branch) on a channel of capacity \<open>cap\<close>:
  the message is dropped when the buffer is full.
\<close>

definition try_send :: "nat \<Rightarrow> 'a list \<Rightarrow> 'a \<Rightarrow> 'a list" where
  "try_send cap ch m = (if length ch < cap then ch @ [m] else ch)"

text \<open>\<open>rand.Intn n\<close> panics for \<open>n \<le> 0\<close> and otherwise returns a number in \<open>[0, n)\<close>.\<close>

definition Intn :: "Game \<Rightarrow> int \<Rightarrow> error + (int \<times> Game)" where
  "Intn g n =
     (if n \<le> 0 then Inl IntnPanic
      else Inr (int (rand g 0) mod n, g\<lparr>rand := (\<lambda>i. rand g (Suc i))\<rparr>))"

subsection \<open>Helpers\<close>

definition min_go :: "int \<Rightarrow> int \<Rightarrow> int" where
  "min_go a b = (if a < b then a else b)"

definition max_go :: "int \<Rightarrow> int \<Rightarrow> int" where
  "max_go a b = (if a > b then a else b)"

definition clamp :: "int \<Rightarrow> int \<Rightarrow> int \<Rightarrow> int" where
  "clamp v a b = (if v < a then a else if v > b then b else v)"

subsection \<open>PushCommand\<close>

definition PushCommand :: "Game \<Rightarrow> Command \<Rightarrow> Game" where
  "PushCommand g c = g\<lparr>commands := try_send 1024 (commands g) c\<rparr>"

subsection \<open>applyCommands\<close>

text \<open>
  The loop \<open>for idx, c := range cmds\<close> that fills the maps \<open>last\<close> (here
  \<open>lastCmd\<close>) and \<open>lastIndex\<close>.
\<close>

fun group_last ::
  "nat \<Rightarrow> Command list \<Rightarrow> (string \<times> Command) list \<times> (string \<times> nat) list
     \<Rightarrow> (string \<times> Command) list \<times> (string \<times> nat) list" where
  "group_last idx [] acc = acc"
| "group_last idx (c # cs) (lastCmd, lastIndex) =
     group_last (Suc idx) cs
       (AList.update (PlayerID c) c lastCmd, AList.update (PlayerID c) idx lastIndex)"

text \<open>
  The entries \<open>(id, idx)\<close> of \<open>lastIndex\<close>, sorted by \<open>idx\<close>. The indices are pairwise
  distinct, so the result of \<open>sort.Slice\<close> does not depend on the order in which the map was
  read nor on the sorting algorithm (lemma \<open>sort_entries_unique\<close> below).
\<close>

definition entries_of :: "(string \<times> nat) list \<Rightarrow> (string \<times> nat) list" where
  "entries_of lastIndex = sort_key snd lastIndex"

text \<open>The occupancy map of the players' current cells.\<close>

definition occupancy :: "(string \<times> Player) list \<Rightarrow> (int \<times> int) \<rightharpoonup> string" where
  "occupancy ps = fold (\<lambda>(k, p) occ. occ((X p, Y p) \<mapsto> ID p)) ps Map.empty"

text \<open>The desired position \<open>(nx, ny)\<close> of player \<open>p\<close> under command \<open>c\<close>.\<close>

definition desired :: "Game \<Rightarrow> Player \<Rightarrow> Command \<Rightarrow> int \<times> int" where
  "desired g p c =
     (if Type c = ''move'' then
        (if Dir c = ''up'' then (X p, max_go 0 (wrap64 (Y p - 1)))
         else if Dir c = ''down'' then (X p, min_go (wrap64 (H g - 1)) (wrap64 (Y p + 1)))
         else if Dir c = ''left'' then (max_go 0 (wrap64 (X p - 1)), Y p)
         else if Dir c = ''right'' then (min_go (wrap64 (W g - 1)) (wrap64 (X p + 1)), Y p)
         else (X p, Y p))
      else if Type c = ''move_abs'' then
        (clamp (CX c) 0 (wrap64 (W g - 1)), clamp (CY c) 0 (wrap64 (H g - 1)))
      else (X p, Y p))"

text \<open>
  The sweet check after a move: \<open>p\<close> is the player at its new cell, stored under key
  \<open>pid\<close>. The first sweet on the cell, if any, is removed, the score goes up by one and a
  \<open>collected\<close> event is offered to the event channel (capacity 10).
\<close>

definition check_sweet :: "Game \<Rightarrow> string \<Rightarrow> Player \<Rightarrow> Game" where
  "check_sweet g pid p =
     (case find (\<lambda>(sid, s). SX s = X p \<and> SY s = Y p) (sweets g) of
        None \<Rightarrow> g\<lparr>players := AList.update pid p (players g)\<rparr>
      | Some (sid, s) \<Rightarrow>
          g\<lparr>players := AList.update pid (p\<lparr>Score := wrap64 (Score p + 1)\<rparr>) (players g),
            sweets := AList.delete sid (sweets g),
            EventBroadcast :=
              try_send 10 (EventBroadcast g) (Collected (ID p) sid (tick g))\<rparr>)"

text \<open>
  One iteration of the loop over the entries, for the player \<open>pid\<close> whose last command is
  \<open>c\<close>. The state of the loop is the game and the occupancy map.
\<close>

definition move_player ::
  "Command \<Rightarrow> string \<Rightarrow> Game \<times> ((int \<times> int) \<rightharpoonup> string)
     \<Rightarrow> Game \<times> ((int \<times> int) \<rightharpoonup> string)" where
  "move_player c pid st =
     (let g = fst st; occupied = snd st in
      case map_of (players g) pid of
        None \<Rightarrow> (g, occupied)
      | Some p \<Rightarrow>
          (let n = desired g p c in
           if (case occupied n of Some occ \<Rightarrow> occ \<noteq> ID p | None \<Rightarrow> False)
           then (g, occupied)
           else (check_sweet g pid (p\<lparr>X := fst n, Y := snd n\<rparr>),
                 (occupied((X p, Y p) := None))(n \<mapsto> ID p))))"

definition zero_Command :: Command where
  "zero_Command = \<lparr>PlayerID = [], Type = [], Dir = [], CX = 0, CY = 0\<rparr>"

text \<open>\<open>last[pid]\<close>: reading a Go map gives the zero value for a missing key.\<close>

definition last_of :: "(string \<times> Command) list \<Rightarrow> string \<Rightarrow> Command" where
  "last_of lastCmd pid = (case map_of lastCmd pid of Some c \<Rightarrow> c | None \<Rightarrow> zero_Command)"

definition process_entry ::
  "(string \<times> Command) list \<Rightarrow> string \<times> nat \<Rightarrow> Game \<times> ((int \<times> int) \<rightharpoonup> string)
     \<Rightarrow> Game \<times> ((int \<times> int) \<rightharpoonup> string)" where
  "process_entry lastCmd e st = move_player (last_of lastCmd (fst e)) (fst e) st"

text \<open>
  \<open>applyCommands\<close> drains the command channel, returns at once when it was empty, and
  otherwise runs the loop over the sorted entries.
\<close>

definition applyCommands :: "Game \<Rightarrow> Game" where
  "applyCommands g =
     (let cmds = commands g; g0 = g\<lparr>commands := []\<rparr> in
      if cmds = [] then g0
      else
        (let grouped = group_last 0 cmds ([], []);
             entries = entries_of (snd grouped)
         in fst (fold (process_entry (fst grouped)) entries (g0, occupancy (players g0)))))"

subsection \<open>The tick of Start, broadcastState, SweetsCount\<close>

definition broadcastState :: "Game \<Rightarrow> Game" where
  "broadcastState g =
     g\<lparr>StateBroadcast :=
         try_send 10 (StateBroadcast g)
           \<lparr>Tick = tick g, Players = map snd (players g), Sweets = map snd (sweets g)\<rparr>\<rparr>"

definition SweetsCount :: "Game \<Rightarrow> int" where
  "SweetsCount g = int (length (sweets g))"

text \<open>
  One iteration of the ticker loop of \<open>Start\<close> in server/game/game.go. The commands that
  the sessions pushed since the last tick are the contents of the command channel.
\<close>

definition Start_tick :: "Game \<Rightarrow> Game" where
  "Start_tick g = broadcastState (applyCommands (g\<lparr>tick := wrap64 (tick g + 1)\<rparr>))"

subsection \<open>AddPlayer and RemovePlayer\<close>

text \<open>\<open>fmt.Sprintf("%d", n)\<close>: the decimal digits of \<open>n\<close>, after a minus sign if \<open>n < 0\<close>.\<close>

fun digits_of :: "nat \<Rightarrow> string" where
  "digits_of n =
     (if n < 10 then [''0123456789'' ! n]
      else digits_of (n div 10) @ [''0123456789'' ! (n mod 10)])"

declare digits_of.simps [simp del]

definition Sprintf_d :: "int \<Rightarrow> string" where
  "Sprintf_d n = (if n < 0 then CHR ''-'' # digits_of (nat (- n)) else digits_of (nat n))"

text \<open>The inner loop of \<open>AddPlayer\<close>: no player stands on the cell \<open>(x, y)\<close>.\<close>

definition free :: "(string \<times> Player) list \<Rightarrow> int \<Rightarrow> int \<Rightarrow> bool" where
  "free ps x y = list_all (\<lambda>(k, p). \<not> (X p = x \<and> Y p = y)) ps"

text \<open>
  The loop of random probes; the first argument counts the iterations that remain
  (\<open>AddPlayer\<close> starts it with 1000).
\<close>

fun probe :: "nat \<Rightarrow> string \<Rightarrow> string \<Rightarrow> Game \<Rightarrow> error + (Player option \<times> Game)" where
  "probe 0 pid name g = Inr (None, g)"
| "probe (Suc i) pid name g =
     (case Intn g (W g) of
        Inl e \<Rightarrow> Inl e
      | Inr (x, g1) \<Rightarrow>
          (case Intn g1 (H g1) of
             Inl e \<Rightarrow> Inl e
           | Inr (y, g2) \<Rightarrow>
               if free (players g2) x y then
                 (let p = \<lparr>ID = pid, Name = name, X = x, Y = y, Score = 0\<rparr>
                  in Inr (Some p, g2\<lparr>players := AList.update pid p (players g2)\<rparr>))
               else probe i pid name g2))"

text \<open>The cells in the order of the fallback scan: row by row, each row from left to right.\<close>

definition grid_cells :: "Game \<Rightarrow> (int \<times> int) list" where
  "grid_cells g = concat (map (\<lambda>y. map (\<lambda>x. (x, y)) [0..W g - 1]) [0..H g - 1])"

definition new_id :: "Game \<Rightarrow> string" where
  "new_id g = ''p-'' @ Sprintf_d (int (length (players g)) + 1)"

text \<open>
  \<open>AddPlayer\<close> returns the new player and the new state, \<open>None\<close> for Go's \<open>nil\<close>, and
  \<open>Inl\<close> when \<open>rand.Intn\<close> panics.
\<close>

definition AddPlayer :: "Game \<Rightarrow> string \<Rightarrow> error + (Player option \<times> Game)" where
  "AddPlayer g name =
     (case probe 1000 (new_id g) name g of
        Inl e \<Rightarrow> Inl e
      | Inr (Some p, g1) \<Rightarrow> Inr (Some p, g1)
      | Inr (None, g1) \<Rightarrow>
          (case find (\<lambda>(x, y). free (players g1) x y) (grid_cells g1) of
             None \<Rightarrow> Inr (None, g1)
           | Some (x, y) \<Rightarrow>
               (let p = \<lparr>ID = new_id g1, Name = name, X = x, Y = y, Score = 0\<rparr>
                in Inr (Some p, g1\<lparr>players := AList.update (new_id g1) p (players g1)\<rparr>))))"

definition RemovePlayer :: "Game \<Rightarrow> string \<Rightarrow> Game" where
  "RemovePlayer g pid = g\<lparr>players := AList.delete pid (players g)\<rparr>"

subsection \<open>NewGame\<close>

text \<open>The id of the sweet that the loop creates in iteration \<open>i\<close>: \<open>fmt.Sprintf("s%d", i+1)\<close>.\<close>

definition sweet_id :: "nat \<Rightarrow> string" where
  "sweet_id i = ''s'' @ Sprintf_d (int i + 1)"

text \<open>
  The loop that places the sweets \<open>s1\<close>, \<open>s2\<close>, ... at random cells, for the values of
  the loop variable \<open>i\<close> in the list. \<open>NewGame\<close> and \<open>Restart\<close> share it.
\<close>

fun place_sweets :: "nat list \<Rightarrow> Game \<Rightarrow> error + Game" where
  "place_sweets [] g = Inr g"
| "place_sweets (i # is) g =
     (case Intn g (W g) of
        Inl e \<Rightarrow> Inl e
      | Inr (x, g1) \<Rightarrow>
          (case Intn g1 (H g1) of
             Inl e \<Rightarrow> Inl e
           | Inr (y, g2) \<Rightarrow>
               (let sid = sweet_id i
                in place_sweets is
                     (g2\<lparr>sweets := AList.update sid \<lparr>SID = sid, SX = x, SY = y\<rparr> (sweets g2)\<rparr>))))"

text \<open>The random source is seeded from the clock; here it is the argument \<open>r\<close>.\<close>

definition NewGame :: "int \<Rightarrow> int \<Rightarrow> int \<Rightarrow> (nat \<Rightarrow> nat) \<Rightarrow> error + Game" where
  "NewGame w h nSweets r =
     place_sweets [0..<nat nSweets]
       \<lparr>W = w, H = h, players = [], sweets = [], commands = [], StateBroadcast = [],
        EventBroadcast = [], tick = 0, rand = r\<rparr>"

section \<open>The revision of the engine with rounds (src/unnamed/part_002)\<close>

text \<open>
  This copy of the engine has the same data model, \<open>NewGame\<close>, \<open>AddPlayer\<close> and helpers. Its
  \<open>applyCommands\<close> caps the moves of a player at two per tick, and its \<open>Start\<close> ends a round
  when no sweet is left. Its definitions carry the suffix \<open>2\<close>.
\<close>

definition desired2 :: "Game \<Rightarrow> Player \<Rightarrow> Command \<Rightarrow> int \<times> int" where
  "desired2 g p c =
     (if Type c = ''move'' then
        (if Dir c = ''up'' then (X p, max_go 0 (wrap64 (Y p - 1)))
         else if Dir c = ''down'' then (X p, min_go (wrap64 (H g - 1)) (wrap64 (Y p + 1)))
         else if Dir c = ''left'' then (max_go 0 (wrap64 (X p - 1)), Y p)
         else if Dir c = ''right'' then (min_go (wrap64 (W g - 1)) (wrap64 (X p + 1)), Y p)
         else (X p, Y p))
      else (X p, Y p))"

definition move_player2 ::
  "Command \<Rightarrow> Game \<times> (string \<Rightarrow> int) \<Rightarrow> Game \<times> (string \<Rightarrow> int)" where
  "move_player2 c st =
     (let g = fst st; movesCount = snd st in
      if movesCount (PlayerID c) \<ge> 2 then (g, movesCount)
      else
        (case map_of (players g) (PlayerID c) of
           None \<Rightarrow> (g, movesCount)
         | Some p \<Rightarrow>
             (let n = desired2 g p c in
              if list_ex (\<lambda>(k, other). ID other \<noteq> ID p \<and> X other = fst n \<and> Y other = snd n)
                   (players g)
              then (g, movesCount)
              else (check_sweet g (PlayerID c) (p\<lparr>X := fst n, Y := snd n\<rparr>),
                    movesCount(PlayerID c := wrap64 (movesCount (PlayerID c) + 1))))))"

definition applyCommands2 :: "Game \<Rightarrow> Game" where
  "applyCommands2 g =
     (let cmds = commands g; g0 = g\<lparr>commands := []\<rparr> in
      if cmds = [] then g0 else fst (fold move_player2 cmds (g0, \<lambda>_. 0)))"

text \<open>
  \<open>Restart\<close>: the scores are reset, twenty sweets are placed in an empty sweet map, and the
  command channel is drained.
\<close>

definition Restart :: "Game \<Rightarrow> error + Game" where
  "Restart g =
     (case place_sweets [0..<20]
             (g\<lparr>players := map (\<lambda>(k, p). (k, p\<lparr>Score := 0\<rparr>)) (players g), sweets := []\<rparr>) of
        Inl e \<Rightarrow> Inl e
      | Inr g1 \<Rightarrow> Inr (g1\<lparr>commands := []\<rparr>))"

text \<open>The scores that the \<open>game_over\<close> message carries.\<close>

definition final_scores :: "Game \<Rightarrow> (string \<times> string \<times> int) list" where
  "final_scores g = map (\<lambda>(k, p). (ID p, Name p, Score p)) (players g)"

text \<open>
  One iteration of the ticker loop of \<open>Start\<close> in part_002. When no sweet is left after the
  tick, the \<open>game_over\<close> message is offered to the event channel, the loop sleeps five
  seconds, during which the sessions may push the commands \<open>during_pause\<close>, and the round
  restarts.
\<close>

definition Start2_tick :: "Game \<Rightarrow> Command list \<Rightarrow> error + Game" where
  "Start2_tick g during_pause =
     (let g1 = broadcastState (applyCommands2 (g\<lparr>tick := wrap64 (tick g + 1)\<rparr>)) in
      if SweetsCount g1 = 0 then
        (let g2 = g1\<lparr>EventBroadcast :=
                      try_send 10 (EventBroadcast g1) (GameOver (final_scores g1))\<rparr>;
             g3 = fold (\<lambda>c g'. PushCommand g' c) during_pause g2
         in Restart g3)
      else Inr g1)"

section \<open>Predicates and example states used by the theorems\<close>

text \<open>A player stands on a cell of the grid.\<close>

definition in_bounds :: "Game \<Rightarrow> Player \<Rightarrow> bool" where
  "in_bounds g p = (0 \<le> X p \<and> X p < W g \<and> 0 \<le> Y p \<and> Y p < H g)"

text \<open>Every player of the map \<open>ps\<close> stands on a cell of the grid of \<open>g\<close>.\<close>

definition all_in_bounds :: "Game \<Rightarrow> (string \<times> Player) list \<Rightarrow> bool" where
  "all_in_bounds g ps = (\<forall>(k, p) \<in> set ps. in_bounds g p)"

text \<open>
  The player map as \<open>AddPlayer\<close> builds it and as the tests set it up: the keys are pairwise
  distinct and every player is stored under its own \<open>ID\<close>.
\<close>

definition wf_players :: "(string \<times> Player) list \<Rightarrow> bool" where
  "wf_players ps = (distinct (map fst ps) \<and> (\<forall>(k, p) \<in> set ps. ID p = k))"

text \<open>No two players stored under different keys stand on the same cell.\<close>

definition no_overlap :: "(string \<times> Player) list \<Rightarrow> bool" where
  "no_overlap ps =
     (\<forall>(k1, p1) \<in> set ps. \<forall>(k2, p2) \<in> set ps. k1 \<noteq> k2 \<longrightarrow> (X p1, Y p1) \<noteq> (X p2, Y p2))"

text \<open>
  The invariant of the loop of \<open>applyCommands\<close>: the occupancy map holds exactly the
  current cell of every player.
\<close>

definition occ_exact :: "(string \<times> Player) list \<Rightarrow> ((int \<times> int) \<rightharpoonup> string) \<Rightarrow> bool" where
  "occ_exact ps occ = (\<forall>pos k. occ pos = Some k \<longleftrightarrow> (\<exists>p. map_of ps k = Some p \<and> (X p, Y p) = pos))"

text \<open>
  The resolution as the specification words it: the positions in the drained queue that hold
  the latest command of their player (no later command comes from the same player), in
  ascending order, and the commands at these positions.
\<close>

definition winning_indices :: "Command list \<Rightarrow> nat list" where
  "winning_indices cmds =
     filter (\<lambda>i. PlayerID (cmds ! i) \<notin> PlayerID ` set (drop (Suc i) cmds)) [0..<length cmds]"

definition winning_commands :: "Command list \<Rightarrow> Command list" where
  "winning_commands cmds = map (\<lambda>i. cmds ! i) (winning_indices cmds)"

text \<open>
  A command that names no move: a \<open>move\<close> whose direction is none of the four, or a
  command whose type is neither \<open>move\<close> nor \<open>move_abs\<close>.
\<close>

definition stay_put :: "Command \<Rightarrow> bool" where
  "stay_put c =
     (Type c = ''move'' \<and> Dir c \<notin> {''up'', ''down'', ''left'', ''right''} \<or>
      Type c \<noteq> ''move'' \<and> Type c \<noteq> ''move_abs'')"

text \<open>
  The states of the unit tests in game\_test.go: a 3 x 3 grid with the players and the
  sweets given.
\<close>

definition move_cmd :: "string \<Rightarrow> string \<Rightarrow> Command" where
  "move_cmd pid dir = \<lparr>PlayerID = pid, Type = ''move'', Dir = dir, CX = 0, CY = 0\<rparr>"

definition player_at :: "string \<Rightarrow> string \<Rightarrow> int \<Rightarrow> int \<Rightarrow> int \<Rightarrow> Player" where
  "player_at pid name x y score = \<lparr>ID = pid, Name = name, X = x, Y = y, Score = score\<rparr>"

definition test_game :: "(string \<times> Player) list \<Rightarrow> (string \<times> Sweet) list \<Rightarrow> Game" where
  "test_game ps ss =
     \<lparr>W = 3, H = 3, players = ps, sweets = ss, commands = [], StateBroadcast = [],
      EventBroadcast = [], tick = 0, rand = (\<lambda>_. 0)\<rparr>"

text \<open>\<open>TestConflictCollect\<close> and \<open>TestConflictArrivalOrder\<close>.\<close>

definition conflict_game :: Game where
  "conflict_game =
     test_game [(''p-1'', player_at ''p-1'' ''A'' 0 1 0), (''p-2'', player_at ''p-2'' ''B'' 2 1 0)]
       [(''s1'', \<lparr>SID = ''s1'', SX = 1, SY = 1\<rparr>)]"

text \<open>\<open>TestMoveAndCollision\<close>.\<close>

definition collision_game :: Game where
  "collision_game =
     test_game [(''p-1'', player_at ''p-1'' ''A'' 1 1 0), (''p-2'', player_at ''p-2'' ''B'' 2 1 0)] []"

text \<open>Two commands of players that are not in the game.\<close>

definition ghost_game :: Game where
  "ghost_game =
     (conflict_game\<lparr>commands := [move_cmd ''p-9'' ''right'', move_cmd ''p-7'' ''up'']\<rparr>)"

text \<open>A player that stands on the cell of a sweet.\<close>

definition sweet_spot_game :: Game where
  "sweet_spot_game =
     test_game [(''p-1'', player_at ''p-1'' ''A'' 1 1 0)] [(''s1'', \<lparr>SID = ''s1'', SX = 1, SY = 1\<rparr>)]"

text \<open>Every cell of the grid holds a player.\<close>

definition grid_full :: "Game \<Rightarrow> bool" where
  "grid_full g =
     (\<forall>x \<in> {0..<W g}. \<forall>y \<in> {0..<H g}. \<exists>(k, p) \<in> set (players g). X p = x \<and> Y p = y)"

text \<open>
  Every sweet is stored under its own id and lies on a cell of the grid; no two sweets lie on
  the same cell.
\<close>

definition sweets_on_grid :: "Game \<Rightarrow> bool" where
  "sweets_on_grid g =
     (\<forall>(k, s) \<in> set (sweets g). SID s = k \<and> 0 \<le> SX s \<and> SX s < W g \<and> 0 \<le> SY s \<and> SY s < H g)"

definition sweets_apart :: "(string \<times> Sweet) list \<Rightarrow> bool" where
  "sweets_apart ss = distinct (map (\<lambda>(k, s). (SX s, SY s)) ss)"

text \<open>The \<open>game_over\<close> messages among the events.\<close>

definition is_game_over :: "Event \<Rightarrow> bool" where
  "is_game_over e = (case e of GameOver scores \<Rightarrow> True | Collected p s t \<Rightarrow> False)"

text \<open>A 1 x 1 grid whose only cell holds a player, and an empty 3 x 3 grid.\<close>

definition full_game :: Game where
  "full_game =
     \<lparr>W = 1, H = 1, players = [(''p-1'', player_at ''p-1'' ''A'' 0 0 0)], sweets = [],
      commands = [], StateBroadcast = [], EventBroadcast = [], tick = 0, rand = (\<lambda>i. i)\<rparr>"

definition empty_game :: Game where
  "empty_game =
     \<lparr>W = 3, H = 3, players = [], sweets = [], commands = [], StateBroadcast = [],
      EventBroadcast = [], tick = 0, rand = (\<lambda>i. i)\<rparr>"

text \<open>
  Two sessions join, the first one leaves, a third one joins: the value of the third
  \<open>AddPlayer\<close> and the player map before and after it.
\<close>

definition join_leave_join ::
  "(Player option \<times> (string \<times> Player) list \<times> (string \<times> Player) list) option" where
  "join_leave_join =
     (case AddPlayer empty_game ''A'' of
        Inl e \<Rightarrow> None
      | Inr (a, g1) \<Rightarrow>
          (case AddPlayer g1 ''B'' of
             Inl e \<Rightarrow> None
           | Inr (b, g2) \<Rightarrow>
               (case AddPlayer (RemovePlayer g2 ''p-1'') ''C'' of
                  Inl e \<Rightarrow> None
                | Inr (c, g3) \<Rightarrow> Some (c, players g2, players g3))))"

text \<open>
  The game after that leave, some ticks later: the player \<open>p-2\<close> is alone, with three
  points, and a sweet lies at (0,0).
\<close>

definition after_leave_game :: Game where
  "after_leave_game =
     test_game [(''p-2'', player_at ''p-2'' ''B'' 2 0 3)] [(''s1'', \<lparr>SID = ''s1'', SX = 0, SY = 0\<rparr>)]"

text \<open>A player of the revision with rounds is one step left of the last sweet.\<close>

definition last_sweet_game :: Game where
  "last_sweet_game =
     (test_game [(''p-1'', player_at ''p-1'' ''A'' 0 0 4)] [(''s1'', \<lparr>SID = ''s1'', SX = 1, SY = 0\<rparr>)])
       \<lparr>commands := [move_cmd ''p-1'' ''right'']\<rparr>"

lemmas run_defs =
  AddPlayer_def new_id_def Sprintf_d_def digits_of.simps Intn_def free_def grid_cells_def
  RemovePlayer_def empty_game_def after_leave_game_def test_game_def player_at_def Let_def

lemmas tick2_defs =
  last_sweet_game_def test_game_def player_at_def move_cmd_def Start2_tick_def
  applyCommands2_def move_player2_def desired2_def check_sweet_def broadcastState_def
  SweetsCount_def try_send_def wrap64_def min_go_def max_go_def Let_def

lemmas eval_defs =
  conflict_game_def collision_game_def test_game_def player_at_def move_cmd_def
  applyCommands_def PushCommand_def try_send_def entries_of_def process_entry_def
  move_player_def last_of_def desired_def occupancy_def check_sweet_def wrap64_def
  min_go_def max_go_def clamp_def Let_def ghost_game_def sweet_spot_game_def

section \<open>Arithmetic and frame lemmas\<close>

lemma wrap64_id: "- (2 ^ 63) \<le> v \<Longrightarrow> v < 2 ^ 63 \<Longrightarrow> wrap64 v = v"
  unfolding wrap64_def by (simp add: mod_pos_pos_trivial)

lemma desired_in_bounds:
  assumes "W g < 2 ^ 63" "H g < 2 ^ 63" "in_bounds g p"
  shows "0 \<le> fst (desired g p c) \<and> fst (desired g p c) < W g \<and>
         0 \<le> snd (desired g p c) \<and> snd (desired g p c) < H g"
proof -
  from assms have b: "0 \<le> X p" "X p < W g" "0 \<le> Y p" "Y p < H g"
    by (simp_all add: in_bounds_def)
  have w: "wrap64 (W g - 1) = W g - 1" "wrap64 (H g - 1) = H g - 1"
    "wrap64 (X p - 1) = X p - 1" "wrap64 (Y p - 1) = Y p - 1"
    "wrap64 (X p + 1) = X p + 1" "wrap64 (Y p + 1) = Y p + 1"
    using assms(1,2) b by (simp_all add: wrap64_id)
  show ?thesis
    using b unfolding desired_def w by (simp add: min_go_def max_go_def clamp_def)
qed

lemma check_sweet_frame [simp]:
  "W (check_sweet g pid p) = W g" "H (check_sweet g pid p) = H g"
  "tick (check_sweet g pid p) = tick g" "commands (check_sweet g pid p) = commands g"
  "rand (check_sweet g pid p) = rand g" "StateBroadcast (check_sweet g pid p) = StateBroadcast g"
  by (simp_all add: check_sweet_def split: option.splits prod.splits)

lemma check_sweet_players:
  "\<exists>q. players (check_sweet g pid p) = AList.update pid q (players g) \<and>
       ID q = ID p \<and> Name q = Name p \<and> X q = X p \<and> Y q = Y p"
  by (auto simp add: check_sweet_def split: option.splits prod.splits)

lemma move_player_frame:
  "W (fst (move_player c pid st)) = W (fst st)" "H (fst (move_player c pid st)) = H (fst st)"
  "tick (fst (move_player c pid st)) = tick (fst st)"
  "commands (fst (move_player c pid st)) = commands (fst st)"
  by (simp_all add: move_player_def Let_def split: option.splits)

lemma move_player_unknown:
  "map_of (players g) pid = None \<Longrightarrow> move_player c pid (g, occ) = (g, occ)"
  by (simp add: move_player_def)

lemma move_player_reject:
  "map_of (players g) pid = Some p \<Longrightarrow> occ (desired g p c) = Some other \<Longrightarrow> other \<noteq> ID p \<Longrightarrow>
   move_player c pid (g, occ) = (g, occ)"
  by (simp add: move_player_def)

lemma move_player_accept:
  assumes "map_of (players g) pid = Some p"
    and "occ (desired g p c) = None \<or> occ (desired g p c) = Some (ID p)"
  shows "\<exists>q. map_of (players (fst (move_player c pid (g, occ)))) pid = Some q \<and>
             (X q, Y q) = desired g p c \<and>
             snd (move_player c pid (g, occ)) = (occ((X p, Y p) := None))(desired g p c \<mapsto> ID p)"
proof -
  let ?n = "desired g p c"
  obtain q where q: "players (check_sweet g pid (p\<lparr>X := fst ?n, Y := snd ?n\<rparr>)) =
      AList.update pid q (players g)" "X q = fst ?n" "Y q = snd ?n"
    using check_sweet_players [of g pid "p\<lparr>X := fst ?n, Y := snd ?n\<rparr>"] by auto
  have "move_player c pid (g, occ) =
      (check_sweet g pid (p\<lparr>X := fst ?n, Y := snd ?n\<rparr>), (occ((X p, Y p) := None))(?n \<mapsto> ID p))"
    using assms by (auto simp add: move_player_def Let_def)
  then show ?thesis using q by (simp add: update_conv')
qed

lemma set_update_cases:
  "(k, v) \<in> set (AList.update pid q ps) \<Longrightarrow> (k, v) = (pid, q) \<or> (k, v) \<in> set ps"
  by (induction ps) (auto split: if_splits)

lemma move_player_keys:
  "fst ` set (players (fst (move_player c pid st))) = fst ` set (players (fst st))"
proof (cases "map_of (players (fst st)) pid")
  case None
  then show ?thesis by (simp add: move_player_def)
next
  case (Some p)
  then have k: "pid \<in> fst ` set (players (fst st))"
    by (metis domI dom_map_of_conv_image_fst)
  let ?n = "desired (fst st) p c"
  obtain q where "players (check_sweet (fst st) pid (p\<lparr>X := fst ?n, Y := snd ?n\<rparr>)) =
      AList.update pid q (players (fst st))"
    using check_sweet_players by blast
  then show ?thesis using Some k by (auto simp add: move_player_def Let_def dom_update)
qed

section \<open>The occupancy map stays exact\<close>

lemma occupancy_map_of:
  "fold (\<lambda>(k, p) occ. occ((X p, Y p) \<mapsto> ID p)) ps m =
     m ++ map_of (rev (map (\<lambda>(k, p). ((X p, Y p), ID p)) ps))"
  by (induction ps arbitrary: m) (auto simp add: map_add_def fun_eq_iff split: option.splits)

lemma occ_init:
  assumes "wf_players ps" "no_overlap ps"
  shows "occ_exact ps (occupancy ps)"
proof -
  let ?cells = "map (\<lambda>(k, p). ((X p, Y p), ID p)) ps"
  have dk: "distinct (map fst ps)" and idk: "\<And>k p. (k, p) \<in> set ps \<Longrightarrow> ID p = k"
    using assms(1) by (auto simp add: wf_players_def)
  have inj: "inj_on (\<lambda>(k, p). (X p, Y p)) (set ps)"
  proof (rule inj_onI)
    fix a b assume a: "a \<in> set ps" and b: "b \<in> set ps"
      and e: "(case a of (k, p) \<Rightarrow> (X p, Y p)) = (case b of (k, p) \<Rightarrow> (X p, Y p))"
    obtain k1 p1 k2 p2 where ab: "a = (k1, p1)" "b = (k2, p2)"
      by (cases a, cases b) auto
    have "k1 = k2"
      using assms(2) a b e unfolding no_overlap_def ab by fastforce
    then show "a = b"
      using dk a b unfolding ab by (metis eq_key_imp_eq_value)
  qed
  have dc: "distinct (map fst ?cells)"
  proof -
    have "map fst ?cells = map (\<lambda>(k, p). (X p, Y p)) ps"
      by (induction ps) auto
    moreover have "distinct ps" using dk by (simp add: distinct_map)
    ultimately show ?thesis using inj by (simp only: distinct_map)
  qed
  have occ: "occupancy ps = map_of (rev ?cells)"
    by (simp add: occupancy_def occupancy_map_of)
  have "\<And>pos k. map_of (rev ?cells) pos = Some k \<longleftrightarrow> (pos, k) \<in> set ?cells"
    using dc by (simp add: rev_map [symmetric])
  moreover have "\<And>pos k. (pos, k) \<in> set ?cells \<longleftrightarrow> (\<exists>p. map_of ps k = Some p \<and> (X p, Y p) = pos)"
    using dk idk by (auto simp add: image_iff) force
  ultimately show ?thesis
    unfolding occ_exact_def occ by simp
qed

lemma occ_exact_no_overlap:
  assumes "wf_players ps" "occ_exact ps occ"
  shows "no_overlap ps"
  unfolding no_overlap_def
proof (intro ballI, clarify)
  fix k1 p1 k2 p2
  assume a: "(k1, p1) \<in> set ps" "(k2, p2) \<in> set ps" "k1 \<noteq> k2"
    and e: "X p1 = X p2" "Y p1 = Y p2"
  have dk: "distinct (map fst ps)" using assms(1) by (simp add: wf_players_def)
  from a dk have m: "map_of ps k1 = Some p1" "map_of ps k2 = Some p2" by simp_all
  from m(1) assms(2) have "occ (X p1, Y p1) = Some k1" unfolding occ_exact_def by blast
  moreover from m(2) assms(2) e have "occ (X p1, Y p1) = Some k2"
    unfolding occ_exact_def by auto
  ultimately show False using a(3) by simp
qed

lemma wf_players_update:
  assumes "wf_players ps" "ID q = pid"
  shows "wf_players (AList.update pid q ps)"
  using assms unfolding wf_players_def
  by (auto simp add: distinct_update dest: set_update_cases)

lemma occ_exact_move:
  assumes wf: "wf_players ps" and ex: "occ_exact ps occ"
    and p: "map_of ps pid = Some p"
    and q: "X q = fst n" "Y q = snd n"
    and acc: "occ n = None \<or> occ n = Some pid"
  shows "occ_exact (AList.update pid q ps) ((occ((X p, Y p) := None))(n \<mapsto> pid))"
  unfolding occ_exact_def
proof (intro allI)
  fix pos k
  have old: "\<And>pos'. occ pos' = Some pid \<longleftrightarrow> pos' = (X p, Y p)"
    using ex p unfolding occ_exact_def by auto
  show "((occ((X p, Y p) := None))(n \<mapsto> pid)) pos = Some k \<longleftrightarrow>
        (\<exists>p'. map_of (AList.update pid q ps) k = Some p' \<and> (X p', Y p') = pos)"
  proof (cases "k = pid")
    case True
    have "((occ((X p, Y p) := None))(n \<mapsto> pid)) pos = Some pid \<longleftrightarrow> pos = n"
      using old by auto
    moreover have "(\<exists>p'. map_of (AList.update pid q ps) pid = Some p' \<and> (X p', Y p') = pos) \<longleftrightarrow> pos = n"
      using q by (auto simp add: update_conv')
    ultimately show ?thesis using True by simp
  next
    case False
    have r: "(\<exists>p'. map_of (AList.update pid q ps) k = Some p' \<and> (X p', Y p') = pos) \<longleftrightarrow> occ pos = Some k"
      using False ex [unfolded occ_exact_def, rule_format, of pos k] by (simp add: update_conv')
    have "((occ((X p, Y p) := None))(n \<mapsto> pid)) pos = Some k \<longleftrightarrow> occ pos = Some k"
    proof -
      have oldp: "occ (X p, Y p) = Some pid" using old by simp
      show ?thesis
        using False acc oldp by (cases "pos = n"; cases "pos = (X p, Y p)") auto
    qed
    then show ?thesis using r by simp
  qed
qed

lemma move_player_inv:
  assumes wf: "wf_players (players g)" and ex: "occ_exact (players g) occ"
  shows "wf_players (players (fst (move_player c pid (g, occ)))) \<and>
         occ_exact (players (fst (move_player c pid (g, occ)))) (snd (move_player c pid (g, occ)))"
proof (cases "map_of (players g) pid")
  case None
  then show ?thesis using wf ex by (simp add: move_player_unknown)
next
  case (Some p)
  have idp: "ID p = pid"
    using wf Some unfolding wf_players_def by (auto dest: map_of_SomeD)
  let ?n = "desired g p c"
  show ?thesis
  proof (cases "case occ ?n of Some o' \<Rightarrow> o' \<noteq> ID p | None \<Rightarrow> False")
    case True
    then show ?thesis using wf ex Some by (simp add: move_player_def)
  next
    case False
    then have acc: "occ ?n = None \<or> occ ?n = Some pid"
      using idp by (auto split: option.splits)
    obtain q where q: "players (check_sweet g pid (p\<lparr>X := fst ?n, Y := snd ?n\<rparr>)) =
          AList.update pid q (players g)" "ID q = pid" "X q = fst ?n" "Y q = snd ?n"
      using check_sweet_players [of g pid "p\<lparr>X := fst ?n, Y := snd ?n\<rparr>"] idp by auto
    have mp: "move_player c pid (g, occ) =
        (check_sweet g pid (p\<lparr>X := fst ?n, Y := snd ?n\<rparr>), (occ((X p, Y p) := None))(?n \<mapsto> ID p))"
      using Some False by (simp add: move_player_def Let_def)
    show ?thesis
      unfolding mp using wf_players_update [OF wf q(2)] occ_exact_move [OF wf ex Some q(3,4) acc]
      by (simp add: q(1) idp)
  qed
qed

lemma fold_move_inv:
  assumes "wf_players (players (fst st))" "occ_exact (players (fst st)) (snd st)"
  shows "wf_players (players (fst (fold (\<lambda>e. move_player (f e) (h e)) es st))) \<and>
         occ_exact (players (fst (fold (\<lambda>e. move_player (f e) (h e)) es st)))
           (snd (fold (\<lambda>e. move_player (f e) (h e)) es st))"
  using assms
proof (induction es arbitrary: st)
  case Nil
  then show ?case by simp
next
  case (Cons e es)
  obtain g occ where st: "st = (g, occ)" by (cases st)
  have "wf_players (players (fst (move_player (f e) (h e) st))) \<and>
        occ_exact (players (fst (move_player (f e) (h e) st))) (snd (move_player (f e) (h e) st))"
    using move_player_inv [of g occ "f e" "h e"] Cons.prems unfolding st by simp
  then show ?case using Cons.IH [of "move_player (f e) (h e) st"] by simp
qed

lemma applyCommands_inv:
  assumes "wf_players (players g)" "no_overlap (players g)"
  shows "wf_players (players (applyCommands g)) \<and> no_overlap (players (applyCommands g))"
proof (cases "commands g = []")
  case True
  then show ?thesis using assms by (simp add: applyCommands_def)
next
  case False
  let ?g0 = "g\<lparr>commands := []\<rparr>"
  let ?grp = "group_last 0 (commands g) ([], [])"
  let ?st = "fold (process_entry (fst ?grp)) (entries_of (snd ?grp)) (?g0, occupancy (players ?g0))"
  have pe: "process_entry (fst ?grp) = (\<lambda>e. move_player (last_of (fst ?grp) (fst e)) (fst e))"
    by (simp add: fun_eq_iff process_entry_def)
  have "wf_players (players (fst ?st)) \<and> occ_exact (players (fst ?st)) (snd ?st)"
    unfolding pe
    by (rule fold_move_inv) (use assms occ_init in simp_all)
  moreover have "applyCommands g = fst ?st"
    using False by (simp add: applyCommands_def Let_def)
  ultimately show ?thesis using occ_exact_no_overlap by metis
qed

section \<open>One command per player, in arrival order\<close>

text \<open>
  A list whose keys are pairwise distinct has one sorted arrangement, so the result of sorting
  the entries depends neither on the order in which the map was read nor on the algorithm.
\<close>

lemma filter_key_single:
  "distinct (map f xs) \<Longrightarrow> k \<in> set xs \<Longrightarrow> filter (\<lambda>x. f k = f x) xs = [k]"
proof (induction xs)
  case Nil
  then show ?case by simp
next
  case (Cons x xs)
  show ?case
  proof (cases "k = x")
    case True
    have "filter (\<lambda>y. f x = f y) xs = []"
      using Cons.prems(1) by (auto simp add: filter_empty_conv)
    then show ?thesis using True by simp
  next
    case False
    then have "k \<in> set xs" using Cons.prems(2) by simp
    moreover have "f x \<notin> f ` set xs" using Cons.prems(1) by simp
    ultimately have "f k \<noteq> f x" by (metis imageI)
    then show ?thesis using Cons \<open>k \<in> set xs\<close> by simp
  qed
qed

lemma sort_key_unique:
  assumes "distinct (map f xs)" "mset ys = mset xs" "sorted (map f ys)"
  shows "sort_key f xs = ys"
proof (rule properties_for_sort_key [OF assms(2) _ assms(3)])
  fix k assume k: "k \<in> set ys"
  have "mset (map f ys) = mset (map f xs)" using assms(2) by simp
  then have dy: "distinct (map f ys)"
    using assms(1) by (metis mset_eq_imp_distinct_iff)
  have kx: "k \<in> set xs" using k assms(2) by (metis mset_eq_setD)
  show "filter (\<lambda>x. f k = f x) ys = filter (\<lambda>x. f k = f x) xs"
    using filter_key_single [OF dy k] filter_key_single [OF assms(1) kx] by simp
qed

lemma sort_entries_unique:
  "distinct (map snd xs) \<Longrightarrow> mset ys = mset xs \<Longrightarrow> entries_of ys = entries_of xs"
  unfolding entries_of_def
  by (metis sort_key_unique mset_sort sorted_sort_key)

lemma filter_mset_other_keys:
  "k \<notin> fst ` set al \<Longrightarrow> filter_mset (\<lambda>e. fst e \<noteq> k) (mset al) = mset al"
  by (induction al) auto

lemma mset_update:
  "distinct (map fst al) \<Longrightarrow>
   mset (AList.update k v al) = filter_mset (\<lambda>e. fst e \<noteq> k) (mset al) + {#(k, v)#}"
  by (induction al) (auto simp add: filter_mset_other_keys)

lemma snd_update_subset: "snd ` set (AList.update k v al) \<subseteq> insert v (snd ` set al)"
  by (induction al) auto

lemma distinct_snd_update:
  "distinct (map snd al) \<Longrightarrow> v \<notin> snd ` set al \<Longrightarrow> distinct (map snd (AList.update k v al))"
proof (induction al)
  case Nil
  then show ?case by simp
next
  case (Cons a al)
  obtain k' v' where a: "a = (k', v')" by (cases a)
  show ?case
  proof (cases "k' = k")
    case True
    then show ?thesis using Cons.prems a by auto
  next
    case False
    have "v' \<notin> snd ` set (AList.update k v al)"
      using snd_update_subset [of k v al] Cons.prems a by auto
    then show ?thesis using False a Cons by auto
  qed
qed

lemma sort_update_last:
  assumes dk: "distinct (map fst al)" and ds: "distinct (map snd al)"
    and b: "\<forall>e \<in> set al. snd e < (n::nat)"
  shows "sort_key snd (AList.update k n al) = filter (\<lambda>e. fst e \<noteq> k) (sort_key snd al) @ [(k, n)]"
proof (rule sort_key_unique)
  have "n \<notin> snd ` set al" using b by auto
  then show "distinct (map snd (AList.update k n al))"
    using ds by (rule distinct_snd_update [rotated])
  show "mset (filter (\<lambda>e. fst e \<noteq> k) (sort_key snd al) @ [(k, n)]) = mset (AList.update k n al)"
    by (simp add: mset_update [OF dk])
  have "sorted (map snd (filter (\<lambda>e. fst e \<noteq> k) (sort_key snd al)))"
    by (rule sorted_filter) simp
  moreover have "\<forall>e \<in> set (filter (\<lambda>e. fst e \<noteq> k) (sort_key snd al)). snd e \<le> n"
    using b by auto
  ultimately show "sorted (map snd (filter (\<lambda>e. fst e \<noteq> k) (sort_key snd al) @ [(k, n)]))"
    by (simp add: sorted_append)
qed

lemma group_last_snoc:
  "group_last i (cs @ [c]) acc =
     (AList.update (PlayerID c) c (fst (group_last i cs acc)),
      AList.update (PlayerID c) (i + length cs) (snd (group_last i cs acc)))"
proof (induction cs arbitrary: i acc)
  case Nil
  then show ?case by (cases acc) simp
next
  case (Cons a cs)
  then show ?case by (cases acc) simp
qed

lemma winning_indices_snoc:
  "winning_indices (cs @ [c]) =
     filter (\<lambda>i. PlayerID (cs ! i) \<noteq> PlayerID c) (winning_indices cs) @ [length cs]"
proof -
  have "filter (\<lambda>i. PlayerID ((cs @ [c]) ! i) \<notin> PlayerID ` set (drop (Suc i) (cs @ [c]))) [0..<length cs]
      = filter (\<lambda>i. PlayerID (cs ! i) \<noteq> PlayerID c) (filter (\<lambda>i. PlayerID (cs ! i) \<notin> PlayerID ` set (drop (Suc i) cs)) [0..<length cs])"
    unfolding filter_filter
    by (rule filter_cong) (auto simp add: nth_append)
  then show ?thesis
    by (simp add: winning_indices_def)
qed

lemma winning_indices_bound: "i \<in> set (winning_indices cs) \<Longrightarrow> i < length cs"
  by (simp add: winning_indices_def)

lemma group_last_entries:
  "sort_key snd (snd (group_last 0 cmds ([], []))) =
       map (\<lambda>i. (PlayerID (cmds ! i), i)) (winning_indices cmds) \<and>
   distinct (map fst (snd (group_last 0 cmds ([], [])))) \<and>
   distinct (map snd (snd (group_last 0 cmds ([], [])))) \<and>
   (\<forall>e \<in> set (snd (group_last 0 cmds ([], []))). snd e < length cmds) \<and>
   (\<forall>i \<in> set (winning_indices cmds).
       map_of (fst (group_last 0 cmds ([], []))) (PlayerID (cmds ! i)) = Some (cmds ! i))"
proof (induction cmds rule: rev_induct)
  case Nil
  then show ?case by (simp add: winning_indices_def)
next
  case (snoc c cs)
  let ?L = "fst (group_last 0 cs ([], []))" and ?LI = "snd (group_last 0 cs ([], []))"
  let ?k = "PlayerID c" and ?n = "length cs"
  have g: "group_last 0 (cs @ [c]) ([], []) = (AList.update ?k c ?L, AList.update ?k ?n ?LI)"
    by (simp add: group_last_snoc)
  from snoc have E: "sort_key snd ?LI = map (\<lambda>i. (PlayerID (cs ! i), i)) (winning_indices cs)"
    and D1: "distinct (map fst ?LI)" and D2: "distinct (map snd ?LI)"
    and B: "\<forall>e \<in> set ?LI. snd e < ?n"
    and Lp: "\<forall>i \<in> set (winning_indices cs). map_of ?L (PlayerID (cs ! i)) = Some (cs ! i)"
    by simp_all
  have 1: "sort_key snd (AList.update ?k ?n ?LI) =
      map (\<lambda>i. (PlayerID ((cs @ [c]) ! i), i)) (winning_indices (cs @ [c]))"
  proof -
    have "map (\<lambda>i. (PlayerID ((cs @ [c]) ! i), i)) (filter (\<lambda>i. PlayerID (cs ! i) \<noteq> ?k) (winning_indices cs))
        = filter (\<lambda>e. fst e \<noteq> ?k) (map (\<lambda>i. (PlayerID (cs ! i), i)) (winning_indices cs))"
      by (auto simp add: filter_map comp_def nth_append dest: winning_indices_bound)
    then show ?thesis
      by (simp add: sort_update_last [OF D1 D2 B] E winning_indices_snoc)
  qed
  have 2: "distinct (map fst (AList.update ?k ?n ?LI))"
    using D1 by (rule distinct_update)
  have 3: "distinct (map snd (AList.update ?k ?n ?LI))"
    using D2 B by (intro distinct_snd_update) auto
  have 4: "\<forall>e \<in> set (AList.update ?k ?n ?LI). snd e < length (cs @ [c])"
    using B snd_update_subset [of ?k ?n ?LI] by fastforce
  have 5: "\<forall>i \<in> set (winning_indices (cs @ [c])).
       map_of (AList.update ?k c ?L) (PlayerID ((cs @ [c]) ! i)) = Some ((cs @ [c]) ! i)"
    using Lp by (auto simp add: winning_indices_snoc update_conv' nth_append dest: winning_indices_bound)
  show ?case unfolding g fst_conv snd_conv using 1 2 3 4 5 by blast
qed

lemma applyCommands_winning:
  "applyCommands g =
     fst (fold (\<lambda>c. move_player c (PlayerID c)) (winning_commands (commands g))
            (g\<lparr>commands := []\<rparr>, occupancy (players g)))"
proof (cases "commands g = []")
  case True
  then show ?thesis by (simp add: applyCommands_def winning_commands_def winning_indices_def)
next
  case False
  let ?cmds = "commands g"
  let ?L = "fst (group_last 0 ?cmds ([], []))" and ?LI = "snd (group_last 0 ?cmds ([], []))"
  let ?st = "(g\<lparr>commands := []\<rparr>, occupancy (players g))"
  have E: "entries_of ?LI = map (\<lambda>i. (PlayerID (?cmds ! i), i)) (winning_indices ?cmds)"
    and Lp: "\<And>i. i \<in> set (winning_indices ?cmds) \<Longrightarrow> map_of ?L (PlayerID (?cmds ! i)) = Some (?cmds ! i)"
    using group_last_entries [of ?cmds] by (simp_all add: entries_of_def)
  have "fold (process_entry ?L) (entries_of ?LI) ?st =
        fold (process_entry ?L \<circ> (\<lambda>i. (PlayerID (?cmds ! i), i))) (winning_indices ?cmds) ?st"
    unfolding E by (simp add: fold_map)
  also have "\<dots> = fold ((\<lambda>c. move_player c (PlayerID c)) \<circ> (\<lambda>i. ?cmds ! i)) (winning_indices ?cmds) ?st"
    by (rule fold_cong) (simp_all add: process_entry_def last_of_def Lp fun_eq_iff)
  also have "\<dots> = fold (\<lambda>c. move_player c (PlayerID c)) (winning_commands ?cmds) ?st"
    by (simp add: winning_commands_def fold_map)
  finally show ?thesis using False by (simp add: applyCommands_def Let_def)
qed

lemma winning_indices_Cons:
  "winning_indices (c # cs) =
     (if PlayerID c \<in> PlayerID ` set cs then [] else [0]) @ map Suc (winning_indices cs)"
proof -
  have "[0..<length (c # cs)] = 0 # map Suc [0..<length cs]"
    by (simp add: upt_conv_Cons map_Suc_upt del: upt_Suc)
  then show ?thesis
    unfolding winning_indices_def by (simp add: filter_map comp_def del: upt_Suc)
qed

lemma winning_commands_Cons:
  "winning_commands (c # cs) =
     (if PlayerID c \<in> PlayerID ` set cs then winning_commands cs else c # winning_commands cs)"
  by (simp add: winning_commands_def winning_indices_Cons comp_def)

lemma winning_commands_Nil [simp]: "winning_commands [] = []"
  by (simp add: winning_commands_def winning_indices_def)

lemma winning_commands_filter:
  "winning_commands (filter (\<lambda>c. PlayerID c \<in> K) cs) =
     filter (\<lambda>c. PlayerID c \<in> K) (winning_commands cs)"
proof (induction cs)
  case Nil
  then show ?case by simp
next
  case (Cons c cs)
  have "PlayerID c \<in> K \<Longrightarrow>
        PlayerID c \<in> PlayerID ` set (filter (\<lambda>c. PlayerID c \<in> K) cs) \<longleftrightarrow> PlayerID c \<in> PlayerID ` set cs"
    by (auto simp add: image_iff)
  then show ?case using Cons by (simp add: winning_commands_Cons)
qed

lemma winning_commands_ids:
  "distinct (map PlayerID (winning_commands cmds)) \<and>
   PlayerID ` set (winning_commands cmds) = PlayerID ` set cmds"
  by (induction cmds) (auto simp add: winning_commands_Cons)

lemma fold_skip_unknown:
  "fold (\<lambda>c. move_player c (PlayerID c)) cs st =
   fold (\<lambda>c. move_player c (PlayerID c))
     (filter (\<lambda>c. PlayerID c \<in> fst ` set (players (fst st))) cs) st"
proof (induction cs arbitrary: st)
  case Nil
  then show ?case by simp
next
  case (Cons c cs)
  let ?st' = "move_player c (PlayerID c) st"
  have k: "fst ` set (players (fst ?st')) = fst ` set (players (fst st))"
    by (rule move_player_keys)
  show ?case
  proof (cases "PlayerID c \<in> fst ` set (players (fst st))")
    case True
    then show ?thesis using Cons [of ?st'] k by simp
  next
    case False
    then have "map_of (players (fst st)) (PlayerID c) = None"
      by (simp add: map_of_eq_None_iff)
    then have "?st' = st" by (cases st) (simp add: move_player_unknown)
    then show ?thesis using False Cons [of st] by simp
  qed
qed

lemma applyCommands_skip_unknown:
  "applyCommands g =
     applyCommands (g\<lparr>commands := filter (\<lambda>c. PlayerID c \<in> fst ` set (players g)) (commands g)\<rparr>)"
  unfolding applyCommands_winning
  using fold_skip_unknown [of "winning_commands (commands g)" "(g\<lparr>commands := []\<rparr>, occupancy (players g))"]
  by (simp add: winning_commands_filter)

section \<open>Bounds\<close>

lemma move_player_bounds:
  assumes "W g < 2 ^ 63" "H g < 2 ^ 63" "\<forall>(k, p) \<in> set (players g). in_bounds g p"
  shows "\<forall>(k, p) \<in> set (players (fst (move_player c pid (g, occ)))). in_bounds g p"
proof (cases "map_of (players g) pid")
  case None
  then show ?thesis using assms(3) by (simp add: move_player_unknown)
next
  case (Some p)
  then have pb: "in_bounds g p" using assms(3) by (auto dest: map_of_SomeD)
  let ?n = "desired g p c"
  obtain q where q: "players (check_sweet g pid (p\<lparr>X := fst ?n, Y := snd ?n\<rparr>)) =
      AList.update pid q (players g)" "X q = fst ?n" "Y q = snd ?n"
    using check_sweet_players [of g pid "p\<lparr>X := fst ?n, Y := snd ?n\<rparr>"] by auto
  have "in_bounds g q"
    using desired_in_bounds [OF assms(1,2) pb, of c] q(2,3) by (simp add: in_bounds_def)
  then have "\<forall>(k, p) \<in> set (AList.update pid q (players g)). in_bounds g p"
    using assms(3) by (auto dest: set_update_cases)
  then show ?thesis using Some assms(3) q(1) by (simp add: move_player_def Let_def)
qed

lemma in_bounds_cong: "W g' = W g \<Longrightarrow> H g' = H g \<Longrightarrow> in_bounds g' = in_bounds g"
  by (simp add: in_bounds_def fun_eq_iff)

lemma fold_move_bounds:
  assumes "W (fst st) < 2 ^ 63" "H (fst st) < 2 ^ 63"
    "\<forall>(k, p) \<in> set (players (fst st)). in_bounds (fst st) p"
  shows "\<forall>(k, p) \<in> set (players (fst (fold (\<lambda>c. move_player c (PlayerID c)) cs st))).
           in_bounds (fst st) p"
  using assms
proof (induction cs arbitrary: st)
  case Nil
  then show ?case by simp
next
  case (Cons c cs)
  let ?st' = "move_player c (PlayerID c) st"
  have f: "W (fst ?st') = W (fst st)" "H (fst ?st') = H (fst st)"
    by (simp_all add: move_player_frame)
  have e: "in_bounds (fst ?st') = in_bounds (fst st)"
    using f by (rule in_bounds_cong)
  have "\<forall>(k, p) \<in> set (players (fst ?st')). in_bounds (fst st) p"
    using move_player_bounds [of "fst st" c "PlayerID c" "snd st"] Cons.prems by simp
  then show ?case
    using Cons.IH [of ?st'] Cons.prems(1,2) unfolding f e by simp
qed

section \<open>The two orders of the conflict test\<close>

lemma conflict_p1_first:
  "players (applyCommands (PushCommand (PushCommand conflict_game (move_cmd ''p-1'' ''right''))
                (move_cmd ''p-2'' ''left''))) =
     [(''p-1'', player_at ''p-1'' ''A'' 1 1 1), (''p-2'', player_at ''p-2'' ''B'' 2 1 0)] \<and>
   sweets (applyCommands (PushCommand (PushCommand conflict_game (move_cmd ''p-1'' ''right''))
                (move_cmd ''p-2'' ''left''))) = []"
  by (simp add: eval_defs)

lemma conflict_p2_first:
  "players (applyCommands (PushCommand (PushCommand conflict_game (move_cmd ''p-2'' ''left''))
                (move_cmd ''p-1'' ''right''))) =
     [(''p-1'', player_at ''p-1'' ''A'' 0 1 0), (''p-2'', player_at ''p-2'' ''B'' 1 1 1)] \<and>
   sweets (applyCommands (PushCommand (PushCommand conflict_game (move_cmd ''p-2'' ''left''))
                (move_cmd ''p-1'' ''right''))) = []"
  by (simp add: eval_defs)

section \<open>AddPlayer\<close>

lemma free_iff: "free ps x y \<longleftrightarrow> \<not> (\<exists>(k, p) \<in> set ps. X p = x \<and> Y p = y)"
  by (auto simp add: free_def list_all_iff)

lemma Intn_pos:
  "0 < n \<Longrightarrow> \<exists>v g'. Intn g n = Inr (v, g') \<and> 0 \<le> v \<and> v < n \<and>
      g' = g\<lparr>rand := (\<lambda>i. rand g (Suc i))\<rparr>"
  by (simp add: Intn_def)

lemma probe_result:
  assumes "0 < W g" "0 < H g"
  shows "\<exists>r g'. probe n pid name g = Inr (r, g') \<and> W g' = W g \<and> H g' = H g \<and>
           sweets g' = sweets g \<and> tick g' = tick g \<and> commands g' = commands g \<and>
           EventBroadcast g' = EventBroadcast g \<and> StateBroadcast g' = StateBroadcast g \<and>
           (case r of
              None \<Rightarrow> players g' = players g
            | Some p \<Rightarrow> p = \<lparr>ID = pid, Name = name, X = X p, Y = Y p, Score = 0\<rparr> \<and>
                in_bounds g p \<and> free (players g) (X p) (Y p) \<and>
                players g' = AList.update pid p (players g))"
  using assms
proof (induction n arbitrary: g)
  case 0
  then show ?case by simp
next
  case (Suc n)
  obtain x g1 where 1: "Intn g (W g) = Inr (x, g1)" "0 \<le> x" "x < W g"
      "g1 = g\<lparr>rand := (\<lambda>i. rand g (Suc i))\<rparr>"
    using Intn_pos [OF Suc.prems(1), of g] by blast
  have h1: "0 < H g1" using 1(4) Suc.prems(2) by simp
  obtain y g2 where 2: "Intn g1 (H g1) = Inr (y, g2)" "0 \<le> y" "y < H g1"
      "g2 = g1\<lparr>rand := (\<lambda>i. rand g1 (Suc i))\<rparr>"
    using Intn_pos [OF h1, of g1] by blast
  have f2: "W g2 = W g" "H g2 = H g" "players g2 = players g" "sweets g2 = sweets g"
      "tick g2 = tick g" "commands g2 = commands g" "EventBroadcast g2 = EventBroadcast g"
      "StateBroadcast g2 = StateBroadcast g"
    using 1(4) 2(4) by simp_all
  show ?case
  proof (cases "free (players g2) x y")
    case True
    then show ?thesis
      using 1(1-3) 2(1-3) f2 1(4) by (simp add: in_bounds_def Let_def)
  next
    case False
    have "0 < W g2" "0 < H g2" using f2 Suc.prems by simp_all
    from Suc.IH [OF this] obtain r g' where ih:
      "probe n pid name g2 = Inr (r, g')" "W g' = W g2" "H g' = H g2"
      "sweets g' = sweets g2" "tick g' = tick g2" "commands g' = commands g2"
      "EventBroadcast g' = EventBroadcast g2" "StateBroadcast g' = StateBroadcast g2"
      "case r of
         None \<Rightarrow> players g' = players g2
       | Some p \<Rightarrow> p = \<lparr>ID = pid, Name = name, X = X p, Y = Y p, Score = 0\<rparr> \<and>
           in_bounds g2 p \<and> free (players g2) (X p) (Y p) \<and>
           players g' = AList.update pid p (players g2)"
      by blast
    have "probe (Suc n) pid name g = Inr (r, g')"
      using False 1(1) 2(1) ih(1) by simp
    moreover have "case r of
         None \<Rightarrow> players g' = players g
       | Some p \<Rightarrow> p = \<lparr>ID = pid, Name = name, X = X p, Y = Y p, Score = 0\<rparr> \<and>
           in_bounds g p \<and> free (players g) (X p) (Y p) \<and>
           players g' = AList.update pid p (players g)"
      using ih(9) f2 by (simp add: in_bounds_def split: option.splits)
    ultimately show ?thesis
      using ih(2-8) f2 by simp
  qed
qed

lemma set_grid_cells: "set (grid_cells g) = {0..<W g} \<times> {0..<H g}"
  by (auto simp add: grid_cells_def)

lemma find_None_iff': "find P xs = None \<longleftrightarrow> (\<forall>x \<in> set xs. \<not> P x)"
  by (induction xs) auto

lemma find_SomeD: "find P xs = Some x \<Longrightarrow> P x \<and> x \<in> set xs"
  by (induction xs) (auto split: if_splits)

lemma grid_full_iff:
  "grid_full g \<longleftrightarrow> find (\<lambda>(x, y). free (players g) x y) (grid_cells g) = None"
  by (auto simp add: grid_full_def find_None_iff' set_grid_cells free_iff)

lemma AddPlayer_cases:
  assumes "0 < W g" "0 < H g"
  shows "(grid_full g \<and> (\<exists>g'. AddPlayer g name = Inr (None, g') \<and> players g' = players g \<and>
             sweets g' = sweets g)) \<or>
         (\<not> grid_full g \<and> (\<exists>p g'. AddPlayer g name = Inr (Some p, g') \<and>
             p = \<lparr>ID = new_id g, Name = name, X = X p, Y = Y p, Score = 0\<rparr> \<and>
             in_bounds g p \<and> free (players g) (X p) (Y p) \<and>
             players g' = AList.update (new_id g) p (players g) \<and> sweets g' = sweets g))"
proof -
  obtain r g1 where pr: "probe 1000 (new_id g) name g = Inr (r, g1)"
      "W g1 = W g" "H g1 = H g" "sweets g1 = sweets g"
      "case r of
         None \<Rightarrow> players g1 = players g
       | Some p \<Rightarrow> p = \<lparr>ID = new_id g, Name = name, X = X p, Y = Y p, Score = 0\<rparr> \<and>
           in_bounds g p \<and> free (players g) (X p) (Y p) \<and>
           players g1 = AList.update (new_id g) p (players g)"
    using probe_result [OF assms, of 1000 "new_id g" name] by blast
  have nf: "\<not> grid_full g" if "in_bounds g p" "free (players g) (X p) (Y p)" for p
  proof
    assume "grid_full g"
    moreover have "X p \<in> {0..<W g}" "Y p \<in> {0..<H g}"
      using that(1) by (simp_all add: in_bounds_def)
    ultimately have "\<exists>(k, q) \<in> set (players g). X q = X p \<and> Y q = Y p"
      unfolding grid_full_def by blast
    then show False using that(2) by (simp add: free_iff)
  qed
  show ?thesis
  proof (cases r)
    case (Some p)
    then have "AddPlayer g name = Inr (Some p, g1)"
      using pr(1) by (simp add: AddPlayer_def)
    then show ?thesis using pr(4,5) Some nf [of p] by auto
  next
    case None
    then have same: "players g1 = players g" using pr(5) by simp
    have nid: "new_id g1 = new_id g" by (simp add: new_id_def same)
    have cells: "grid_cells g1 = grid_cells g" by (simp add: grid_cells_def pr(2,3))
    show ?thesis
    proof (cases "find (\<lambda>(x, y). free (players g) x y) (grid_cells g)")
      case n: None
      then have "AddPlayer g name = Inr (None, g1)"
        using pr(1) None same cells by (simp add: AddPlayer_def)
      moreover have "grid_full g" using n by (simp add: grid_full_iff)
      ultimately show ?thesis using same pr(4) by simp
    next
      case s: (Some c)
      obtain x y where c: "c = (x, y)" by (cases c)
      let ?p = "\<lparr>ID = new_id g, Name = name, X = x, Y = y, Score = 0\<rparr>"
      have fr: "free (players g) x y" and inb: "in_bounds g ?p"
        using find_SomeD [OF s] by (auto simp add: c set_grid_cells in_bounds_def)
      have "AddPlayer g name =
          Inr (Some ?p, g1\<lparr>players := AList.update (new_id g) ?p (players g)\<rparr>)"
        using pr(1) None same cells nid s c by (simp add: AddPlayer_def Let_def)
      then show ?thesis using nf [of ?p] fr inb pr(4) by auto
    qed
  qed
qed

section \<open>Placing the sweets\<close>

text \<open>The decimal digits determine the number, so the ids of the sweets are pairwise distinct.\<close>

lemma digits_of_last: "last (digits_of n) = ''0123456789'' ! (n mod 10)"
  by (subst digits_of.simps) simp

lemma digits_of_nonempty: "digits_of n \<noteq> []"
  by (subst digits_of.simps) simp

lemma digits_of_butlast:
  "butlast (digits_of n) = (if n < 10 then [] else digits_of (n div 10))"
  by (subst digits_of.simps) (simp add: butlast_append)

lemma digit_inj: "a < 10 \<Longrightarrow> b < 10 \<Longrightarrow> ''0123456789'' ! a = ''0123456789'' ! b \<Longrightarrow> a = b"
proof -
  assume "a < 10" "b < 10" "''0123456789'' ! a = ''0123456789'' ! b"
  moreover have "distinct ''0123456789''" by simp
  ultimately show ?thesis by (simp add: nth_eq_iff_index_eq)
qed

lemma digits_of_inj: "digits_of n = digits_of m \<Longrightarrow> n = m"
proof (induction n arbitrary: m rule: less_induct)
  case (less n)
  have l: "n mod 10 = m mod 10"
    using less.prems digits_of_last [of n] digits_of_last [of m]
    by (intro digit_inj) simp_all
  have b: "(if n < 10 then [] else digits_of (n div 10)) =
           (if m < 10 then [] else digits_of (m div 10))"
    using less.prems digits_of_butlast [of n] digits_of_butlast [of m] by simp
  show ?case
  proof (cases "n < 10")
    case True
    then have "m < 10" using b digits_of_nonempty [of "m div 10"] by (auto split: if_splits)
    then show ?thesis using True l by simp
  next
    case False
    then have m: "\<not> m < 10" using b digits_of_nonempty [of "n div 10"] by (auto split: if_splits)
    then have "digits_of (n div 10) = digits_of (m div 10)" using b False by simp
    moreover have "n div 10 < n" using False by simp
    ultimately have "n div 10 = m div 10" using less.IH by blast
    then show ?thesis using l by (metis div_mult_mod_eq)
  qed
qed

lemma sweet_id_inj: "inj sweet_id"
proof (rule injI)
  fix i j assume "sweet_id i = sweet_id j"
  then have "digits_of (Suc i) = digits_of (Suc j)"
    by (simp add: sweet_id_def Sprintf_d_def nat_add_distrib)
  then show "i = j" using digits_of_inj by blast
qed

lemma update_fresh: "k \<notin> fst ` set al \<Longrightarrow> AList.update k v al = al @ [(k, v)]"
  by (induction al) auto

lemma place_sweets_result:
  assumes "0 < W g" "0 < H g" "distinct js" "sweet_id ` set js \<inter> fst ` set (sweets g) = {}"
    "sweets_on_grid g"
  shows "\<exists>g'. place_sweets js g = Inr g' \<and> W g' = W g \<and> H g' = H g \<and>
           players g' = players g \<and> tick g' = tick g \<and> commands g' = commands g \<and>
           EventBroadcast g' = EventBroadcast g \<and> StateBroadcast g' = StateBroadcast g \<and>
           map fst (sweets g') = map fst (sweets g) @ map sweet_id js \<and> sweets_on_grid g'"
  using assms
proof (induction js arbitrary: g)
  case Nil
  then show ?case by simp
next
  case (Cons i js)
  obtain x g1 where 1: "Intn g (W g) = Inr (x, g1)" "0 \<le> x" "x < W g"
      "g1 = g\<lparr>rand := (\<lambda>i. rand g (Suc i))\<rparr>"
    using Intn_pos [OF Cons.prems(1), of g] by blast
  have h1: "0 < H g1" using 1(4) Cons.prems(2) by simp
  obtain y g2 where 2: "Intn g1 (H g1) = Inr (y, g2)" "0 \<le> y" "y < H g1"
      "g2 = g1\<lparr>rand := (\<lambda>i. rand g1 (Suc i))\<rparr>"
    using Intn_pos [OF h1, of g1] by blast
  let ?s = "\<lparr>SID = sweet_id i, SX = x, SY = y\<rparr>"
  let ?g3 = "g2\<lparr>sweets := AList.update (sweet_id i) ?s (sweets g2)\<rparr>"
  have fresh: "sweet_id i \<notin> fst ` set (sweets g)" using Cons.prems(4) by auto
  have sw: "sweets ?g3 = sweets g @ [(sweet_id i, ?s)]"
    using 1(4) 2(4) fresh by (simp add: update_fresh)
  have f3: "W ?g3 = W g" "H ?g3 = H g" "players ?g3 = players g" "tick ?g3 = tick g"
      "commands ?g3 = commands g" "EventBroadcast ?g3 = EventBroadcast g"
      "StateBroadcast ?g3 = StateBroadcast g"
    using 1(4) 2(4) by simp_all
  have step: "place_sweets (i # js) g = place_sweets js ?g3"
    using 1(1) 2(1) by (simp add: sweet_id_def Let_def)
  have "sweet_id i \<notin> sweet_id ` set js"
    using Cons.prems(3) sweet_id_inj by (auto dest: injD)
  then have d: "sweet_id ` set js \<inter> fst ` set (sweets ?g3) = {}"
    using Cons.prems(4) unfolding sw by auto
  have og: "sweets_on_grid ?g3"
    using Cons.prems(5) 1(2,3) 2(2,3) 1(4)
    unfolding sweets_on_grid_def sw f3 by auto
  have "0 < W ?g3" "0 < H ?g3" "distinct js"
    using Cons.prems(1-3) f3 by simp_all
  from Cons.IH [OF this d og] show ?case
    unfolding step f3 sw by auto
qed

lemma NewGame_result:
  assumes "NewGame w h n r = Inr g"
  shows "W g = w \<and> H g = h \<and> players g = [] \<and> commands g = [] \<and> tick g = 0 \<and>
         map fst (sweets g) = map sweet_id [0..<nat n] \<and> sweets_on_grid g"
proof (cases "nat n = 0")
  case True
  then show ?thesis using assms by (auto simp add: NewGame_def sweets_on_grid_def)
next
  case False
  let ?g0 = "\<lparr>W = w, H = h, players = [], sweets = [], commands = [], StateBroadcast = [],
        EventBroadcast = [], tick = 0, rand = r\<rparr>"
  obtain js where js: "[0..<nat n] = 0 # js" using False by (metis upt_conv_Cons gr0I)
  have "0 < w \<and> 0 < h"
  proof (rule ccontr)
    assume "\<not> (0 < w \<and> 0 < h)"
    then have "place_sweets (0 # js) ?g0 = Inl IntnPanic"
      by (auto simp add: Intn_def)
    then show False using assms js by (simp add: NewGame_def)
  qed
  then have "\<exists>g'. place_sweets [0..<nat n] ?g0 = Inr g' \<and> W g' = W ?g0 \<and> H g' = H ?g0 \<and>
           players g' = players ?g0 \<and> tick g' = tick ?g0 \<and> commands g' = commands ?g0 \<and>
           EventBroadcast g' = EventBroadcast ?g0 \<and> StateBroadcast g' = StateBroadcast ?g0 \<and>
           map fst (sweets g') = map fst (sweets ?g0) @ map sweet_id [0..<nat n] \<and> sweets_on_grid g'"
    by (intro place_sweets_result) (simp_all add: sweets_on_grid_def)
  then show ?thesis using assms by (auto simp add: NewGame_def)
qed

lemma NewGame_returns:
  assumes "0 < w" "0 < h"
  shows "\<exists>g. NewGame w h n r = Inr g"
proof -
  let ?g0 = "\<lparr>W = w, H = h, players = [], sweets = [], commands = [], StateBroadcast = [],
        EventBroadcast = [], tick = 0, rand = r\<rparr>"
  have "\<exists>g'. place_sweets [0..<nat n] ?g0 = Inr g' \<and> W g' = W ?g0 \<and> H g' = H ?g0 \<and>
           players g' = players ?g0 \<and> tick g' = tick ?g0 \<and> commands g' = commands ?g0 \<and>
           EventBroadcast g' = EventBroadcast ?g0 \<and> StateBroadcast g' = StateBroadcast ?g0 \<and>
           map fst (sweets g') = map fst (sweets ?g0) @ map sweet_id [0..<nat n] \<and> sweets_on_grid g'"
    by (intro place_sweets_result) (use assms in \<open>simp_all add: sweets_on_grid_def\<close>)
  then show ?thesis by (auto simp add: NewGame_def)
qed

lemma Restart_result:
  assumes "0 < W g" "0 < H g"
  shows "\<exists>g'. Restart g = Inr g' \<and> W g' = W g \<and> H g' = H g \<and>
           players g' = map (\<lambda>(k, p). (k, p\<lparr>Score := 0\<rparr>)) (players g) \<and>
           tick g' = tick g \<and> commands g' = [] \<and>
           EventBroadcast g' = EventBroadcast g \<and> StateBroadcast g' = StateBroadcast g \<and>
           map fst (sweets g') = map sweet_id [0..<20] \<and> sweets_on_grid g'"
proof -
  let ?g0 = "g\<lparr>players := map (\<lambda>(k, p). (k, p\<lparr>Score := 0\<rparr>)) (players g), sweets := []\<rparr>"
  have "\<exists>g'. place_sweets [0..<20] ?g0 = Inr g' \<and> W g' = W ?g0 \<and> H g' = H ?g0 \<and>
           players g' = players ?g0 \<and> tick g' = tick ?g0 \<and> commands g' = commands ?g0 \<and>
           EventBroadcast g' = EventBroadcast ?g0 \<and> StateBroadcast g' = StateBroadcast ?g0 \<and>
           map fst (sweets g') = map fst (sweets ?g0) @ map sweet_id [0..<20] \<and> sweets_on_grid g'"
    by (intro place_sweets_result) (use assms in \<open>simp_all add: sweets_on_grid_def\<close>)
  then show ?thesis by (auto simp add: Restart_def sweets_on_grid_def)
qed

section \<open>The states that the operations reach\<close>

text \<open>
  A new game has a well-keyed player map without overlap, and \<open>AddPlayer\<close> and
  \<open>RemovePlayer\<close> keep it so; \<open>applyCommands\<close> does too (lemma
  \<open>applyCommands_inv\<close>).
\<close>

lemma wf_players_NewGame: "NewGame w h n r = Inr g \<Longrightarrow> wf_players (players g)"
  using NewGame_result [of w h n r g] by (simp add: wf_players_def)

lemma wf_players_AddPlayer:
  assumes "0 < W g" "0 < H g" "wf_players (players g)" "AddPlayer g name = Inr (r, g')"
  shows "wf_players (players g')"
  using AddPlayer_cases [OF assms(1,2), of name] assms(3,4)
proof (elim disjE conjE exE)
  fix g1 assume "AddPlayer g name = Inr (None, g1)" "players g1 = players g"
  then show ?thesis using assms(3,4) by simp
next
  fix p g1
  assume a: "AddPlayer g name = Inr (Some p, g1)"
    "p = \<lparr>ID = new_id g, Name = name, X = X p, Y = Y p, Score = 0\<rparr>"
    "players g1 = AList.update (new_id g) p (players g)"
  have "ID p = new_id g" by (subst a(2)) simp
  then show ?thesis using a(1,3) assms(3,4) wf_players_update by auto
qed

lemma wf_players_RemovePlayer:
  "wf_players (players g) \<Longrightarrow> wf_players (players (RemovePlayer g pid))"
proof -
  assume a: "wf_players (players g)"
  have "set (AList.delete pid (players g)) \<subseteq> set (players g)"
    by (auto simp add: AList.delete_eq)
  then show ?thesis
    using a by (auto simp add: wf_players_def RemovePlayer_def distinct_delete)
qed


lemma no_overlap_AddPlayer:
  assumes "0 < W g" "0 < H g" "no_overlap (players g)" "AddPlayer g name = Inr (r, g')"
  shows "no_overlap (players g')"
  using AddPlayer_cases [OF assms(1,2), of name] assms(3,4)
proof (elim disjE conjE exE)
  fix g1 assume "AddPlayer g name = Inr (None, g1)" "players g1 = players g"
  then show ?thesis using assms(3,4) by simp
next
  fix p g1
  assume a: "AddPlayer g name = Inr (Some p, g1)" "free (players g) (X p) (Y p)"
    "players g1 = AList.update (new_id g) p (players g)"
  have old: "(k, q) = (new_id g, p) \<or> (k, q) \<in> set (players g)"
    if "(k, q) \<in> set (players g1)" for k q
    using that unfolding a(3) by (rule set_update_cases)
  have fr: "(X q, Y q) \<noteq> (X p, Y p)" if "(k, q) \<in> set (players g)" for k q
    using a(2) that by (auto simp add: free_iff)
  have "no_overlap (players g1)"
    unfolding no_overlap_def
  proof (intro ballI, clarify)
    fix k1 p1 k2 p2
    assume m: "(k1, p1) \<in> set (players g1)" "(k2, p2) \<in> set (players g1)" "k1 \<noteq> k2"
      and e: "X p1 = X p2" "Y p1 = Y p2"
    from old [OF m(1)] old [OF m(2)] show False
      using m(3) e fr assms(3) unfolding no_overlap_def by (elim disjE) fastforce+
  qed
  then show ?thesis using a(1) assms(4) by simp
qed

lemma no_overlap_RemovePlayer:
  "no_overlap (players g) \<Longrightarrow> no_overlap (players (RemovePlayer g pid))"
proof -
  assume a: "no_overlap (players g)"
  have "set (AList.delete pid (players g)) \<subseteq> set (players g)"
    by (auto simp add: AList.delete_eq)
  then have "\<And>k q. (k, q) \<in> set (players (RemovePlayer g pid)) \<Longrightarrow> (k, q) \<in> set (players g)"
    by (auto simp add: RemovePlayer_def)
  then show ?thesis
    using a unfolding no_overlap_def by blast
qed

section \<open>The tick of the revision with rounds\<close>

lemma check_sweet_game_over:
  "filter is_game_over (EventBroadcast (check_sweet g pid p)) = filter is_game_over (EventBroadcast g)"
  by (simp add: check_sweet_def try_send_def is_game_over_def split: option.splits prod.splits)

lemma move_player2_frame:
  "W (fst (move_player2 c st)) = W (fst st)" "H (fst (move_player2 c st)) = H (fst st)"
  "tick (fst (move_player2 c st)) = tick (fst st)"
  "commands (fst (move_player2 c st)) = commands (fst st)"
  "StateBroadcast (fst (move_player2 c st)) = StateBroadcast (fst st)"
  "filter is_game_over (EventBroadcast (fst (move_player2 c st))) =
     filter is_game_over (EventBroadcast (fst st))"
  by (simp_all add: move_player2_def Let_def check_sweet_game_over split: option.splits)

lemma fold_move_player2_frame:
  "W (fst (fold move_player2 cs st)) = W (fst st) \<and> H (fst (fold move_player2 cs st)) = H (fst st) \<and>
   tick (fst (fold move_player2 cs st)) = tick (fst st) \<and>
   commands (fst (fold move_player2 cs st)) = commands (fst st) \<and>
   filter is_game_over (EventBroadcast (fst (fold move_player2 cs st))) =
     filter is_game_over (EventBroadcast (fst st))"
  by (induction cs arbitrary: st) (simp_all add: move_player2_frame)

lemma applyCommands2_frame:
  "W (applyCommands2 g) = W g \<and> H (applyCommands2 g) = H g \<and> tick (applyCommands2 g) = tick g \<and>
   commands (applyCommands2 g) = [] \<and>
   filter is_game_over (EventBroadcast (applyCommands2 g)) = filter is_game_over (EventBroadcast g)"
  using fold_move_player2_frame [of "commands g" "(g\<lparr>commands := []\<rparr>, \<lambda>_. 0)"]
  by (simp add: applyCommands2_def Let_def)

lemma fold_PushCommand_frame:
  "W (fold (\<lambda>c g'. PushCommand g' c) cs g) = W g \<and>
   H (fold (\<lambda>c g'. PushCommand g' c) cs g) = H g \<and>
   players (fold (\<lambda>c g'. PushCommand g' c) cs g) = players g \<and>
   sweets (fold (\<lambda>c g'. PushCommand g' c) cs g) = sweets g \<and>
   tick (fold (\<lambda>c g'. PushCommand g' c) cs g) = tick g \<and>
   EventBroadcast (fold (\<lambda>c g'. PushCommand g' c) cs g) = EventBroadcast g \<and>
   StateBroadcast (fold (\<lambda>c g'. PushCommand g' c) cs g) = StateBroadcast g"
  by (induction cs arbitrary: g) (simp_all add: PushCommand_def)

text \<open>The \<open>Start\<close> of server/game/game.go never sends a \<open>game_over\<close> message.\<close>

lemma move_player_game_over:
  "filter is_game_over (EventBroadcast (fst (move_player c pid st))) =
     filter is_game_over (EventBroadcast (fst st))"
  by (simp add: move_player_def Let_def check_sweet_game_over split: option.splits)

lemma fold_move_player_game_over:
  "filter is_game_over (EventBroadcast (fst (fold (\<lambda>c. move_player c (PlayerID c)) cs st))) =
     filter is_game_over (EventBroadcast (fst st))"
  by (induction cs arbitrary: st) (simp_all add: move_player_game_over)

lemma Start_tick_game_over:
  "filter is_game_over (EventBroadcast (Start_tick g)) = filter is_game_over (EventBroadcast g)"
  unfolding Start_tick_def applyCommands_winning
  by (simp add: fold_move_player_game_over broadcastState_def)

section \<open>The claims\<close>

text \<open>
  C1. In every tick the resolver keeps one command per player, the one at the latest position
  of that player in the drained queue, and processes the players in ascending order of the
  position of that command: \<open>applyCommands\<close> is the loop \<open>move_player\<close> over
  \<open>winning_commands\<close>, which holds exactly one command of every player that sent one. A
  move whose destination the occupancy map gives to a different player is rejected and leaves
  the state as it was; a move to a free cell or to the mover's own cell is accepted and puts
  the player on the destination. With P1 at (0,1), P2 at (2,1) and a sweet at (1,1), the
  player whose command was enqueued first reaches (1,1) with score 1 and the other one stays
  where it was with score 0.
\<close>

theorem arrival_order_resolution:
  "applyCommands g =
     fst (fold (\<lambda>c. move_player c (PlayerID c)) (winning_commands (commands g))
            (g\<lparr>commands := []\<rparr>, occupancy (players g))) \<and>
   distinct (map PlayerID (winning_commands cmds)) \<and>
   PlayerID ` set (winning_commands cmds) = PlayerID ` set cmds \<and>
   (map_of (players g) pid = Some p \<and> occ (desired g p c) = Some other \<and> other \<noteq> ID p \<longrightarrow>
      move_player c pid (g, occ) = (g, occ)) \<and>
   (map_of (players g) pid = Some p \<and>
    (occ (desired g p c) = None \<or> occ (desired g p c) = Some (ID p)) \<longrightarrow>
      (\<exists>q. map_of (players (fst (move_player c pid (g, occ)))) pid = Some q \<and>
           (X q, Y q) = desired g p c)) \<and>
   players (applyCommands (PushCommand (PushCommand conflict_game (move_cmd ''p-1'' ''right''))
                (move_cmd ''p-2'' ''left''))) =
     [(''p-1'', player_at ''p-1'' ''A'' 1 1 1), (''p-2'', player_at ''p-2'' ''B'' 2 1 0)] \<and>
   sweets (applyCommands (PushCommand (PushCommand conflict_game (move_cmd ''p-1'' ''right''))
                (move_cmd ''p-2'' ''left''))) = [] \<and>
   players (applyCommands (PushCommand (PushCommand conflict_game (move_cmd ''p-2'' ''left''))
                (move_cmd ''p-1'' ''right''))) =
     [(''p-1'', player_at ''p-1'' ''A'' 0 1 0), (''p-2'', player_at ''p-2'' ''B'' 1 1 1)] \<and>
   sweets (applyCommands (PushCommand (PushCommand conflict_game (move_cmd ''p-2'' ''left''))
                (move_cmd ''p-1'' ''right''))) = []"
  using applyCommands_winning [of g] winning_commands_ids [of cmds]
    move_player_reject [of g pid p occ c other] move_player_accept [of g pid p occ c]
    conflict_p1_first conflict_p2_first
  by blast

theorem arrival_order_resolution_witness:
  "map_of (players collision_game) ''p-1'' = Some (player_at ''p-1'' ''A'' 1 1 0) \<and>
   occupancy (players collision_game)
     (desired collision_game (player_at ''p-1'' ''A'' 1 1 0) (move_cmd ''p-1'' ''right'')) = Some ''p-2'' \<and>
   ''p-2'' \<noteq> ID (player_at ''p-1'' ''A'' 1 1 0) \<and>
   move_player (move_cmd ''p-1'' ''right'') ''p-1'' (collision_game, occupancy (players collision_game)) =
     (collision_game, occupancy (players collision_game)) \<and>
   map_of (players collision_game) ''p-2'' = Some (player_at ''p-2'' ''B'' 2 1 0) \<and>
   occupancy (players collision_game)
     (desired collision_game (player_at ''p-2'' ''B'' 2 1 0) (move_cmd ''p-2'' ''up'')) = None \<and>
   (\<exists>q. map_of (players (fst (move_player (move_cmd ''p-2'' ''up'') ''p-2''
            (collision_game, occupancy (players collision_game))))) ''p-2'' = Some q \<and>
        (X q, Y q) = (2, 0))"
proof -
  let ?A = "player_at ''p-1'' ''A'' 1 1 0" and ?B = "player_at ''p-2'' ''B'' 2 1 0"
  let ?occ = "occupancy (players collision_game)"
  have a: "map_of (players collision_game) ''p-1'' = Some ?A \<and>
      ?occ (desired collision_game ?A (move_cmd ''p-1'' ''right'')) = Some ''p-2'' \<and> ''p-2'' \<noteq> ID ?A"
    by (simp add: eval_defs)
  have b: "map_of (players collision_game) ''p-2'' = Some ?B \<and>
      ?occ (desired collision_game ?B (move_cmd ''p-2'' ''up'')) = None"
    by (simp add: eval_defs)
  have d: "desired collision_game ?B (move_cmd ''p-2'' ''up'') = (2, 0)"
    by (simp add: eval_defs)
  from a arrival_order_resolution [of collision_game "[]" "''p-1''" ?A ?occ "move_cmd ''p-1'' ''right''" "''p-2''"]
  have 1: "move_player (move_cmd ''p-1'' ''right'') ''p-1'' (collision_game, ?occ) = (collision_game, ?occ)"
    by blast
  from b arrival_order_resolution [of collision_game "[]" "''p-2''" ?B ?occ "move_cmd ''p-2'' ''up''"]
  have 2: "\<exists>q. map_of (players (fst (move_player (move_cmd ''p-2'' ''up'') ''p-2'' (collision_game, ?occ)))) ''p-2'' = Some q \<and>
        (X q, Y q) = desired collision_game ?B (move_cmd ''p-2'' ''up'')"
    by blast
  show ?thesis using a b 1 2 unfolding d by blast
qed

text \<open>
  C2. If no two players share a cell before the commands of a tick are resolved, no two
  players share a cell after \<open>applyCommands\<close>. The player map is keyed by the players'
  ids: a new game has such a map, and \<open>AddPlayer\<close>, \<open>RemovePlayer\<close> and
  \<open>applyCommands\<close> keep it so.
\<close>

theorem no_overlap_preserved:
  assumes "wf_players (players g)" and "no_overlap (players g)"
  shows "no_overlap (players (applyCommands g)) \<and> wf_players (players (applyCommands g))"
  using applyCommands_inv [OF assms] by simp

theorem no_overlap_preserved_witness:
  "wf_players (players (PushCommand (PushCommand conflict_game (move_cmd ''p-2'' ''left''))
       (move_cmd ''p-1'' ''right''))) \<and>
   no_overlap (players (PushCommand (PushCommand conflict_game (move_cmd ''p-2'' ''left''))
       (move_cmd ''p-1'' ''right''))) \<and>
   no_overlap (players (applyCommands (PushCommand (PushCommand conflict_game
       (move_cmd ''p-2'' ''left'')) (move_cmd ''p-1'' ''right''))))"
proof -
  let ?g = "PushCommand (PushCommand conflict_game (move_cmd ''p-2'' ''left'')) (move_cmd ''p-1'' ''right'')"
  have 1: "wf_players (players ?g)"
    by (simp add: eval_defs wf_players_def)
  have 2: "no_overlap (players ?g)"
    by (simp add: eval_defs no_overlap_def)
  from no_overlap_preserved [OF 1 2] 1 2 show ?thesis by simp
qed

text \<open>
  C3. From a position within the grid, the destination of every command, directional or
  absolute with any payload, satisfies \<open>0 \<le> x < W\<close> and \<open>0 \<le> y < H\<close>, and so does
  every player after a tick when every player did before. \<open>W\<close> and \<open>H\<close> are Go
  \<open>int\<close>s, that is below \<open>2 ^ 63\<close>.
\<close>

theorem moves_stay_in_bounds:
  assumes "W g < 2 ^ 63" and "H g < 2 ^ 63"
  shows "(in_bounds g p \<longrightarrow>
            0 \<le> fst (desired g p c) \<and> fst (desired g p c) < W g \<and>
            0 \<le> snd (desired g p c) \<and> snd (desired g p c) < H g) \<and>
         (all_in_bounds g (players g) \<longrightarrow> all_in_bounds g (players (applyCommands g)))"
proof -
  have "\<forall>(k, p) \<in> set (players (applyCommands g)). in_bounds g p"
    if "\<forall>(k, p) \<in> set (players g). in_bounds g p"
    unfolding applyCommands_winning
    using fold_move_bounds [of "(g\<lparr>commands := []\<rparr>, occupancy (players g))" "winning_commands (commands g)"]
      assms that
    by (simp add: in_bounds_def)
  then show ?thesis
    using desired_in_bounds [OF assms, of p c] unfolding all_in_bounds_def by blast
qed

theorem moves_stay_in_bounds_witness:
  "W conflict_game < 2 ^ 63 \<and> H conflict_game < 2 ^ 63 \<and>
   in_bounds conflict_game (player_at ''p-2'' ''B'' 2 1 0) \<and>
   desired conflict_game (player_at ''p-2'' ''B'' 2 1 0)
     \<lparr>PlayerID = ''p-2'', Type = ''move_abs'', Dir = [], CX = 7, CY = - 4\<rparr> = (2, 0) \<and>
   desired conflict_game (player_at ''p-2'' ''B'' 2 1 0) (move_cmd ''p-2'' ''right'') = (2, 1) \<and>
   0 \<le> fst (desired conflict_game (player_at ''p-2'' ''B'' 2 1 0) (move_cmd ''p-2'' ''right'')) \<and>
   fst (desired conflict_game (player_at ''p-2'' ''B'' 2 1 0) (move_cmd ''p-2'' ''right'')) < W conflict_game \<and>
   all_in_bounds conflict_game (players conflict_game) \<and>
   all_in_bounds conflict_game (players (applyCommands conflict_game))"
proof -
  have 1: "W conflict_game < 2 ^ 63" and 2: "H conflict_game < 2 ^ 63"
    by (simp_all add: eval_defs)
  have 3: "in_bounds conflict_game (player_at ''p-2'' ''B'' 2 1 0)"
    by (simp add: eval_defs in_bounds_def)
  have 4: "all_in_bounds conflict_game (players conflict_game)"
    by (simp add: eval_defs in_bounds_def all_in_bounds_def)
  have 5: "desired conflict_game (player_at ''p-2'' ''B'' 2 1 0)
     \<lparr>PlayerID = ''p-2'', Type = ''move_abs'', Dir = [], CX = 7, CY = - 4\<rparr> = (2, 0)"
    "desired conflict_game (player_at ''p-2'' ''B'' 2 1 0) (move_cmd ''p-2'' ''right'') = (2, 1)"
    by (simp_all add: eval_defs)
  from moves_stay_in_bounds [OF 1 2, of "player_at ''p-2'' ''B'' 2 1 0" "move_cmd ''p-2'' ''right''"]
    1 2 3 4 5
  show ?thesis by blast
qed

text \<open>
  C4. In the revision with rounds (src/unnamed/part_002; the \<open>Start\<close> of
  server/game/game.go has no end of round), a tick of \<open>Start\<close> that leaves no sweet
  sends one \<open>game_over\<close> message with the id, name and score of every player, by one
  non-blocking send on the event channel, and restarts the round: every score is zero, the
  sweets are the twenty fresh sweets \<open>s1\<close> ... \<open>s20\<close> on cells of the grid, and the
  command channel is empty whatever was pushed during the pause. A tick that leaves a sweet
  ends there; \<open>applyCommands\<close> itself never sends a \<open>game_over\<close> message.
\<close>

theorem round_completion:
  assumes "0 < W g" and "0 < H g"
    and "g1 = broadcastState (applyCommands2 (g\<lparr>tick := wrap64 (tick g + 1)\<rparr>))"
  shows "filter is_game_over (EventBroadcast g1) = filter is_game_over (EventBroadcast g) \<and>
         (SweetsCount g1 \<noteq> 0 \<longrightarrow> Start2_tick g during_pause = Inr g1) \<and>
         (SweetsCount g1 = 0 \<longrightarrow>
            (\<exists>g'. Start2_tick g during_pause = Inr g' \<and>
                  EventBroadcast g' =
                    try_send 10 (EventBroadcast g1)
                      (GameOver (map (\<lambda>(k, p). (ID p, Name p, Score p)) (players g1))) \<and>
                  (length (EventBroadcast g1) < 10 \<longrightarrow>
                     EventBroadcast g' =
                       EventBroadcast g1 @
                         [GameOver (map (\<lambda>(k, p). (ID p, Name p, Score p)) (players g1))]) \<and>
                  players g' = map (\<lambda>(k, p). (k, p\<lparr>Score := 0\<rparr>)) (players g1) \<and>
                  map fst (sweets g') = map sweet_id [0..<20] \<and> sweets_on_grid g' \<and>
                  commands g' = [] \<and> tick g' = tick g1 \<and> W g' = W g \<and> H g' = H g))"
proof -
  let ?ev = "try_send 10 (EventBroadcast g1) (GameOver (final_scores g1))"
  let ?g3 = "fold (\<lambda>c g'. PushCommand g' c) during_pause (g1\<lparr>EventBroadcast := ?ev\<rparr>)"
  have f1: "W g1 = W g" "H g1 = H g"
    "filter is_game_over (EventBroadcast g1) = filter is_game_over (EventBroadcast g)"
    using applyCommands2_frame [of "g\<lparr>tick := wrap64 (tick g + 1)\<rparr>"]
    unfolding assms(3) by (simp_all add: broadcastState_def)
  have f3: "W ?g3 = W g" "H ?g3 = H g" "players ?g3 = players g1" "tick ?g3 = tick g1"
    "EventBroadcast ?g3 = ?ev"
    using fold_PushCommand_frame [of during_pause "g1\<lparr>EventBroadcast := ?ev\<rparr>"] f1
    by simp_all
  have "0 < W ?g3" "0 < H ?g3" using f3 assms(1,2) by simp_all
  from Restart_result [OF this] obtain g' where r: "Restart ?g3 = Inr g'"
    "W g' = W ?g3" "H g' = H ?g3"
    "players g' = map (\<lambda>(k, p). (k, p\<lparr>Score := 0\<rparr>)) (players ?g3)"
    "tick g' = tick ?g3" "commands g' = []" "EventBroadcast g' = EventBroadcast ?g3"
    "map fst (sweets g') = map sweet_id [0..<20]" "sweets_on_grid g'"
    by blast
  have over: "Start2_tick g during_pause = Inr g'" if "SweetsCount g1 = 0"
    using that r(1) unfolding Start2_tick_def assms(3) [symmetric] by (simp add: Let_def)
  have cont: "Start2_tick g during_pause = Inr g1" if "SweetsCount g1 \<noteq> 0"
    using that unfolding Start2_tick_def assms(3) [symmetric] by (simp add: Let_def)
  let ?msg = "GameOver (map (\<lambda>(k, p). (ID p, Name p, Score p)) (players g1))"
  have ev: "EventBroadcast g' = try_send 10 (EventBroadcast g1) ?msg"
    using r(7) f3(5) by (simp add: final_scores_def)
  have room: "EventBroadcast g' = EventBroadcast g1 @ [?msg]" if "length (EventBroadcast g1) < 10"
    using that ev by (simp add: try_send_def)
  have rest: "players g' = map (\<lambda>(k, p). (k, p\<lparr>Score := 0\<rparr>)) (players g1)"
    "tick g' = tick g1" "W g' = W g" "H g' = H g"
    using r(2-5) f3(1-4) by simp_all
  have A: "SweetsCount g1 \<noteq> 0 \<longrightarrow> Start2_tick g during_pause = Inr g1"
    using cont by simp
  have B: "SweetsCount g1 = 0 \<longrightarrow>
            (\<exists>g'. Start2_tick g during_pause = Inr g' \<and>
                  EventBroadcast g' = try_send 10 (EventBroadcast g1) ?msg \<and>
                  (length (EventBroadcast g1) < 10 \<longrightarrow>
                     EventBroadcast g' = EventBroadcast g1 @ [?msg]) \<and>
                  players g' = map (\<lambda>(k, p). (k, p\<lparr>Score := 0\<rparr>)) (players g1) \<and>
                  map fst (sweets g') = map sweet_id [0..<20] \<and> sweets_on_grid g' \<and>
                  commands g' = [] \<and> tick g' = tick g1 \<and> W g' = W g \<and> H g' = H g)"
  proof
    assume z: "SweetsCount g1 = 0"
    show "\<exists>g'. Start2_tick g during_pause = Inr g' \<and>
                  EventBroadcast g' = try_send 10 (EventBroadcast g1) ?msg \<and>
                  (length (EventBroadcast g1) < 10 \<longrightarrow>
                     EventBroadcast g' = EventBroadcast g1 @ [?msg]) \<and>
                  players g' = map (\<lambda>(k, p). (k, p\<lparr>Score := 0\<rparr>)) (players g1) \<and>
                  map fst (sweets g') = map sweet_id [0..<20] \<and> sweets_on_grid g' \<and>
                  commands g' = [] \<and> tick g' = tick g1 \<and> W g' = W g \<and> H g' = H g"
      using over [OF z] ev room rest r(6,8,9) by (intro exI [of _ g'] conjI impI)
  qed
  show ?thesis
    using f1(3) A B by (intro conjI)
qed

theorem round_completion_witness:
  "0 < W last_sweet_game \<and> 0 < H last_sweet_game \<and>
   SweetsCount (broadcastState (applyCommands2
      (last_sweet_game\<lparr>tick := wrap64 (tick last_sweet_game + 1)\<rparr>))) = 0 \<and>
   (\<exists>g'. Start2_tick last_sweet_game [move_cmd ''p-1'' ''up''] = Inr g' \<and>
         EventBroadcast g' = [Collected ''p-1'' ''s1'' 1, GameOver [(''p-1'', ''A'', 5)]] \<and>
         players g' = [(''p-1'', player_at ''p-1'' ''A'' 1 0 0)] \<and>
         map fst (sweets g') = map sweet_id [0..<20] \<and> commands g' = [])"
proof -
  let ?g1 = "broadcastState (applyCommands2 (last_sweet_game\<lparr>tick := wrap64 (tick last_sweet_game + 1)\<rparr>))"
  have 1: "0 < W last_sweet_game" "0 < H last_sweet_game"
    by (simp_all add: tick2_defs)
  have 2: "SweetsCount ?g1 = 0"
    by (simp add: tick2_defs)
  have 3: "try_send 10 (EventBroadcast ?g1)
       (GameOver (map (\<lambda>(k, p). (ID p, Name p, Score p)) (players ?g1))) =
     [Collected ''p-1'' ''s1'' 1, GameOver [(''p-1'', ''A'', 5)]]"
    by (simp add: tick2_defs)
  have 4: "map (\<lambda>(k, p). (k, p\<lparr>Score := 0\<rparr>)) (players ?g1) = [(''p-1'', player_at ''p-1'' ''A'' 1 0 0)]"
    by (simp add: tick2_defs)
  note T = round_completion [OF 1 refl, of "[move_cmd ''p-1'' ''up'']"]
  from T [THEN conjunct2, THEN conjunct2, THEN mp, OF 2]
  obtain g' where k: "Start2_tick last_sweet_game [move_cmd ''p-1'' ''up''] = Inr g'"
    "EventBroadcast g' = try_send 10 (EventBroadcast ?g1)
       (GameOver (map (\<lambda>(k, p). (ID p, Name p, Score p)) (players ?g1)))"
    "players g' = map (\<lambda>(k, p). (k, p\<lparr>Score := 0\<rparr>)) (players ?g1)"
    "map fst (sweets g') = map sweet_id [0..<20]" "commands g' = []"
    by (elim exE conjE)
  have "Start2_tick last_sweet_game [move_cmd ''p-1'' ''up''] = Inr g' \<and>
         EventBroadcast g' = [Collected ''p-1'' ''s1'' 1, GameOver [(''p-1'', ''A'', 5)]] \<and>
         players g' = [(''p-1'', player_at ''p-1'' ''A'' 1 0 0)] \<and>
         map fst (sweets g') = map sweet_id [0..<20] \<and> commands g' = []"
    using k unfolding 3 4 by (intro conjI)
  then show ?thesis using 1 2 by blast
qed

text \<open>
  C5. The ids of the players in the map are pairwise distinct, but an id does not stay bound
  to its player: \<open>AddPlayer\<close> numbers the new player by the size of the map, so after
  \<open>p-1\<close> has left, the next player gets the id \<open>p-2\<close> of a player that is still in
  the game and takes its place in the map.
\<close>

theorem AddPlayer_reuses_live_id:
  "join_leave_join =
     Some (Some (player_at ''p-2'' ''C'' 1 2 0),
           [(''p-1'', player_at ''p-1'' ''A'' 0 1 0), (''p-2'', player_at ''p-2'' ''B'' 2 0 0)],
           [(''p-2'', player_at ''p-2'' ''C'' 1 2 0)])"
  unfolding join_leave_join_def
  by (simp add: run_defs eval_nat_numeral)

text \<open>
  C6. \<open>NewGame\<close> and \<open>Restart\<close> give the sweets the pairwise distinct ids \<open>s1\<close>,
  \<open>s2\<close>, ... and put each one on a cell of the grid; a new game has no player. The cells
  are drawn one by one and never compared.
\<close>

theorem generated_sweets_on_grid:
  "(NewGame w h n r = Inr g \<longrightarrow>
      players g = [] \<and> map fst (sweets g) = map sweet_id [0..<nat n] \<and>
      distinct (map fst (sweets g)) \<and> sweets_on_grid g) \<and>
   (0 < W g0 \<and> 0 < H g0 \<longrightarrow>
      (\<exists>g1. Restart g0 = Inr g1 \<and> map fst (sweets g1) = map sweet_id [0..<20] \<and>
            distinct (map fst (sweets g1)) \<and> sweets_on_grid g1))"
proof -
  have d: "distinct (map sweet_id [0..<k])" for k
    using sweet_id_inj by (simp add: distinct_map inj_on_def inj_def)
  show ?thesis
    using NewGame_result [of w h n r g] Restart_result [of g0] d
    by (metis (no_types, lifting))
qed

theorem generated_sweets_on_grid_witness:
  "(\<exists>g. NewGame 3 3 2 (\<lambda>i. i) = Inr g \<and> players g = [] \<and>
        map fst (sweets g) = map sweet_id [0..<nat 2] \<and> sweets_on_grid g) \<and>
   0 < W full_game \<and> 0 < H full_game \<and>
   (\<exists>g1. Restart full_game = Inr g1 \<and> map fst (sweets g1) = map sweet_id [0..<20] \<and>
         sweets_on_grid g1)"
proof -
  obtain g where g: "NewGame 3 3 2 (\<lambda>i. i) = Inr g"
    using NewGame_returns [of 3 3 2 "\<lambda>i. i"] by auto
  have 1: "0 < W full_game \<and> 0 < H full_game"
    by (simp add: full_game_def)
  from generated_sweets_on_grid [of 3 3 2 "\<lambda>i. i" g full_game] g 1
  show ?thesis by blast
qed

text \<open>
  On a grid of one cell the two sweets of \<open>NewGame(1, 1, 2)\<close> lie on the same cell
  whatever is drawn. In the default game \<open>NewGame(10, 10, 20)\<close>, when the random source
  draws 0, 1, 2, ..., the sweets \<open>s1\<close> and \<open>s6\<close> lie on the same cell.
\<close>

theorem sweets_share_a_cell:
  "(case NewGame 1 1 2 (\<lambda>i. i) of
      Inl e \<Rightarrow> False
    | Inr g \<Rightarrow>
        sweets g = [(''s1'', \<lparr>SID = ''s1'', SX = 0, SY = 0\<rparr>),
                    (''s2'', \<lparr>SID = ''s2'', SX = 0, SY = 0\<rparr>)] \<and>
        \<not> sweets_apart (sweets g)) \<and>
   (case NewGame 10 10 20 (\<lambda>i. i) of
      Inl e \<Rightarrow> False
    | Inr g \<Rightarrow>
        map_of (sweets g) ''s1'' = Some \<lparr>SID = ''s1'', SX = 0, SY = 1\<rparr> \<and>
        map_of (sweets g) ''s6'' = Some \<lparr>SID = ''s6'', SX = 0, SY = 1\<rparr> \<and>
        \<not> sweets_apart (sweets g))"
  by code_simp

text \<open>
  C7. On a grid with at least one cell, \<open>AddPlayer\<close> returns, and it returns \<open>nil\<close>
  exactly when every cell of the grid holds a player. Otherwise it returns the new player,
  on a cell of the grid that held no player, with score 0, and stores it in the map.
\<close>

theorem AddPlayer_fails_iff_grid_full:
  assumes "0 < W g" and "0 < H g"
  shows "(\<exists>r g'. AddPlayer g name = Inr (r, g')) \<and>
         ((\<exists>g'. AddPlayer g name = Inr (None, g')) \<longleftrightarrow> grid_full g) \<and>
         (\<forall>p g'. AddPlayer g name = Inr (Some p, g') \<longrightarrow>
            in_bounds g p \<and> free (players g) (X p) (Y p) \<and> Score p = 0 \<and> Name p = name \<and>
            map_of (players g') (ID p) = Some p)"
proof -
  from AddPlayer_cases [OF assms, of name] show ?thesis
  proof
    assume "grid_full g \<and> (\<exists>g'. AddPlayer g name = Inr (None, g') \<and> players g' = players g \<and>
             sweets g' = sweets g)"
    then show ?thesis by auto
  next
    assume a: "\<not> grid_full g \<and> (\<exists>p g'. AddPlayer g name = Inr (Some p, g') \<and>
             p = \<lparr>ID = new_id g, Name = name, X = X p, Y = Y p, Score = 0\<rparr> \<and>
             in_bounds g p \<and> free (players g) (X p) (Y p) \<and>
             players g' = AList.update (new_id g) p (players g) \<and> sweets g' = sweets g)"
    then obtain p g' where p: "AddPlayer g name = Inr (Some p, g')"
      "p = \<lparr>ID = new_id g, Name = name, X = X p, Y = Y p, Score = 0\<rparr>"
      "in_bounds g p" "free (players g) (X p) (Y p)"
      "players g' = AList.update (new_id g) p (players g)"
      by blast
    have "ID p = new_id g" "Score p = 0" "Name p = name"
      by (subst p(2), simp)+
    then show ?thesis using a p by (auto simp add: update_conv')
  qed
qed

theorem AddPlayer_fails_iff_grid_full_witness:
  "0 < W full_game \<and> 0 < H full_game \<and> grid_full full_game \<and>
   (\<exists>g'. AddPlayer full_game ''B'' = Inr (None, g')) \<and>
   0 < W after_leave_game \<and> 0 < H after_leave_game \<and> \<not> grid_full after_leave_game \<and>
   (\<exists>r g'. AddPlayer after_leave_game ''C'' = Inr (r, g')) \<and>
   \<not> (\<exists>g'. AddPlayer after_leave_game ''C'' = Inr (None, g'))"
proof -
  have 1: "0 < W full_game" "0 < H full_game"
    by (simp_all add: full_game_def)
  have 2: "grid_full full_game"
    by (simp add: full_game_def grid_full_def player_at_def)
  have 3: "0 < W after_leave_game" "0 < H after_leave_game"
    by (simp_all add: after_leave_game_def test_game_def)
  have "\<not> (\<exists>(k, p) \<in> set (players after_leave_game). X p = 0 \<and> Y p = 0)"
    by (simp add: after_leave_game_def test_game_def player_at_def)
  then have 4: "\<not> grid_full after_leave_game"
    unfolding grid_full_def using 3 by force
  from AddPlayer_fails_iff_grid_full [OF 1, of "''B''"]
    AddPlayer_fails_iff_grid_full [OF 3, of "''C''"] 1 2 3 4
  show ?thesis by blast
qed

text \<open>
  C8. At any point of a tick that started without overlap, a command that names no move has
  the player's current cell as its destination and is accepted: the occupancy map is left as
  it was and the sweet check runs on the current cell. When a sweet lies there, the player
  gains a point without changing position and the sweet is removed; otherwise the game is
  unchanged.
\<close>

theorem stay_put_move_collects:
  assumes "wf_players (players g)" and "no_overlap (players g)"
    and "stay_put c"
    and "st = fold (\<lambda>c'. move_player c' (PlayerID c')) earlier (g, occupancy (players g))"
    and "map_of (players (fst st)) pid = Some p"
  shows "desired (fst st) p c = (X p, Y p) \<and>
         move_player c pid st = (check_sweet (fst st) pid p, snd st) \<and>
         (case find (\<lambda>(sid, s). SX s = X p \<and> SY s = Y p) (sweets (fst st)) of
            None \<Rightarrow> fst (move_player c pid st) = fst st
          | Some (sid, s) \<Rightarrow>
              map_of (players (fst (move_player c pid st))) pid =
                Some (p\<lparr>Score := wrap64 (Score p + 1)\<rparr>) \<and>
              sweets (fst (move_player c pid st)) = AList.delete sid (sweets (fst st)))"
proof -
  have inv: "wf_players (players (fst st)) \<and> occ_exact (players (fst st)) (snd st)"
    unfolding assms(4)
    by (rule fold_move_inv) (use assms(1,2) occ_init in simp_all)
  have d: "desired (fst st) p c = (X p, Y p)"
    using assms(3) by (auto simp add: stay_put_def desired_def)
  have idp: "ID p = pid"
    using inv assms(5) unfolding wf_players_def by (auto dest: map_of_SomeD)
  have o: "snd st (X p, Y p) = Some (ID p)"
    using inv assms(5) idp unfolding occ_exact_def by auto
  have m: "move_player c pid st = (check_sweet (fst st) pid p, snd st)"
    using assms(5) o by (simp add: move_player_def d fun_upd_idem)
  have u: "AList.update pid p (players (fst st)) = players (fst st)"
    using assms(5) by (rule update_triv)
  show ?thesis
    unfolding m using d u
    by (auto simp add: check_sweet_def update_conv' split: option.splits)
qed

theorem stay_put_move_collects_witness:
  "wf_players (players sweet_spot_game) \<and> no_overlap (players sweet_spot_game) \<and>
   stay_put (move_cmd ''p-1'' ''north'') \<and>
   map_of (players sweet_spot_game) ''p-1'' = Some (player_at ''p-1'' ''A'' 1 1 0) \<and>
   find (\<lambda>(sid, s). SX s = 1 \<and> SY s = 1) (sweets sweet_spot_game) =
     Some (''s1'', \<lparr>SID = ''s1'', SX = 1, SY = 1\<rparr>) \<and>
   map_of (players (fst (move_player (move_cmd ''p-1'' ''north'') ''p-1''
       (sweet_spot_game, occupancy (players sweet_spot_game))))) ''p-1'' =
     Some (player_at ''p-1'' ''A'' 1 1 1) \<and>
   sweets (fst (move_player (move_cmd ''p-1'' ''north'') ''p-1''
       (sweet_spot_game, occupancy (players sweet_spot_game)))) = []"
proof -
  let ?st = "(sweet_spot_game, occupancy (players sweet_spot_game))"
  let ?p = "player_at ''p-1'' ''A'' 1 1 0"
  have 1: "wf_players (players sweet_spot_game)"
    by (simp add: eval_defs wf_players_def)
  have 2: "no_overlap (players sweet_spot_game)"
    by (simp add: eval_defs no_overlap_def)
  have 3: "stay_put (move_cmd ''p-1'' ''north'')"
    by (simp add: stay_put_def move_cmd_def)
  have 4: "?st = fold (\<lambda>c'. move_player c' (PlayerID c')) [] ?st"
    by simp
  have 5: "map_of (players (fst ?st)) ''p-1'' = Some ?p"
    by (simp add: eval_defs)
  have 6: "find (\<lambda>(sid, s). SX s = X ?p \<and> SY s = Y ?p) (sweets (fst ?st)) =
     Some (''s1'', \<lparr>SID = ''s1'', SX = 1, SY = 1\<rparr>)"
    by (simp add: eval_defs)
  have 7: "X ?p = 1" "Y ?p = 1" "?p\<lparr>Score := wrap64 (Score ?p + 1)\<rparr> = player_at ''p-1'' ''A'' 1 1 1"
    "AList.delete ''s1'' (sweets (fst ?st)) = []"
    by (simp_all add: eval_defs)
  have "case find (\<lambda>(sid, s). SX s = X ?p \<and> SY s = Y ?p) (sweets (fst ?st)) of
            None \<Rightarrow> fst (move_player (move_cmd ''p-1'' ''north'') ''p-1'' ?st) = fst ?st
          | Some (sid, s) \<Rightarrow>
              map_of (players (fst (move_player (move_cmd ''p-1'' ''north'') ''p-1'' ?st))) ''p-1'' =
                Some (?p\<lparr>Score := wrap64 (Score ?p + 1)\<rparr>) \<and>
              sweets (fst (move_player (move_cmd ''p-1'' ''north'') ''p-1'' ?st)) =
                AList.delete sid (sweets (fst ?st))"
    using stay_put_move_collects [OF 1 2 3 4 5] by blast
  then have "map_of (players (fst (move_player (move_cmd ''p-1'' ''north'') ''p-1'' ?st))) ''p-1'' =
                Some (?p\<lparr>Score := wrap64 (Score ?p + 1)\<rparr>) \<and>
        sweets (fst (move_player (move_cmd ''p-1'' ''north'') ''p-1'' ?st)) =
          AList.delete ''s1'' (sweets (fst ?st))"
    unfolding 6 by (simp only: option.case prod.case)
  then show ?thesis using 1 2 3 5 6 unfolding 7 by simp
qed

text \<open>
  C9. \<open>AddPlayer\<close> leaves the sweets as they are and writes one entry of the player map,
  the one under the new id (lemma \<open>AddPlayer_cases\<close>); a player spawned on the cell of a
  sweet keeps score 0 and the sweet stays. But the new id can be the id of a player in the
  game, and then this player is replaced: here \<open>p-2\<close>, at (2,0) with three points, is gone
  after the call.
\<close>

theorem AddPlayer_replaces_player:
  "map_of (players after_leave_game) ''p-2'' = Some (player_at ''p-2'' ''B'' 2 0 3) \<and>
   (case AddPlayer after_leave_game ''C'' of
      Inl e \<Rightarrow> False
    | Inr (r, g') \<Rightarrow>
        r = Some (player_at ''p-2'' ''C'' 0 0 0) \<and>
        players g' = [(''p-2'', player_at ''p-2'' ''C'' 0 0 0)] \<and>
        sweets g' = [(''s1'', \<lparr>SID = ''s1'', SX = 0, SY = 0\<rparr>)])"
  by (simp add: run_defs eval_nat_numeral)

text \<open>
  C10. A command whose \<open>PlayerID\<close> is not a key of the player map is skipped: its
  iteration leaves the game and the occupancy map as they were, a tick gives the same game
  with and without such commands in the queue, and a tick with no other commands changes
  nothing but the drained queue. \<open>applyCommands\<close> has no failing branch.
\<close>

theorem unknown_player_skipped:
  "(map_of (players g) pid = None \<longrightarrow> move_player c pid (g, occ) = (g, occ)) \<and>
   applyCommands g =
     applyCommands (g\<lparr>commands := filter (\<lambda>c. PlayerID c \<in> fst ` set (players g)) (commands g)\<rparr>) \<and>
   ((\<forall>c \<in> set (commands g). PlayerID c \<notin> fst ` set (players g)) \<longrightarrow>
      applyCommands g = g\<lparr>commands := []\<rparr>)"
proof -
  have "applyCommands g = g\<lparr>commands := []\<rparr>"
    if "\<forall>c \<in> set (commands g). PlayerID c \<notin> fst ` set (players g)"
  proof -
    have "filter (\<lambda>c. PlayerID c \<in> fst ` set (players g)) (commands g) = []"
      using that by (simp add: filter_empty_conv)
    then show ?thesis
      using applyCommands_skip_unknown [of g] by (simp add: applyCommands_def)
  qed
  then show ?thesis
    using move_player_unknown [of g pid c occ] applyCommands_skip_unknown [of g] by blast
qed

theorem unknown_player_skipped_witness:
  "map_of (players ghost_game) ''p-9'' = None \<and>
   move_player (move_cmd ''p-9'' ''right'') ''p-9'' (ghost_game, occupancy (players ghost_game)) =
     (ghost_game, occupancy (players ghost_game)) \<and>
   list_all (\<lambda>c. PlayerID c \<notin> fst ` set (players ghost_game)) (commands ghost_game) \<and>
   applyCommands ghost_game = ghost_game\<lparr>commands := []\<rparr>"
proof -
  have 1: "map_of (players ghost_game) ''p-9'' = None"
    by (simp add: eval_defs)
  have 2: "\<forall>c \<in> set (commands ghost_game). PlayerID c \<notin> fst ` set (players ghost_game)"
    by (simp add: eval_defs)
  from unknown_player_skipped [of ghost_game "''p-9''" "move_cmd ''p-9'' ''right''" "occupancy (players ghost_game)"]
    1 2
  show ?thesis unfolding list_all_iff by blast
qed

end
